theory Spec2Isabelle
  imports Main "HOL-Library.Sublist" "HOL-Library.AList" "HOL-Library.Multiset"
begin

section \<open>Data model\<close>

text \<open>
  Sessions and projects as the server sends them and the client keeps them. A field that
  a JavaScript object may lack is an \<open>option\<close>. Dates are milliseconds since the epoch
  (an ISO string and its time value determine each other). The spread
  \<^verbatim>\<open>{...session, id: r, isPlaceholder: false}\<close> is a record update: every other field
  is kept.
\<close>

record session =
  sess_id :: string
  title :: "string option"
  summary :: string
  created_at :: "int option"
  updated_at :: "int option"
  lastActivity :: int
  messageCount :: "nat option"
  cwd :: "string option"
  isPlaceholder :: bool

record session_meta =
  hasMore :: "bool option"
  total :: nat

record project =
  name :: string
  path :: string
  displayName :: string
  fullPath :: string
  isCustomName :: bool
  isManuallyAdded :: bool
  sessions :: "session list"
  sessionMeta :: "session_meta option"

text \<open>
  An entry of the \<^verbatim>\<open>placeholderSessions\<close> registry in local storage: the placeholder
  session's fields, the owning project and the bookkeeping of \<^verbatim>\<open>handleSubmit\<close>.
  The registry is a JavaScript object; its entries keep insertion order, so it is an
  association list (\<open>AList.update\<close> overwrites in place or appends, \<open>AList.delete\<close>
  removes the key).
\<close>

record placeholder_data =
  ph_title :: "string option"
  ph_summary :: string
  ph_created_at :: "int option"
  ph_updated_at :: "int option"
  ph_lastActivity :: int
  projectName :: string
  createdAt :: int
  pendingConversion :: bool
  pendingConversionTime :: "int option"

text \<open>
  The state of \<^verbatim>\<open>AppContent\<close> that the reconciler reads and writes: the React state
  variables and the registry in local storage. State setters are applied in program
  order.
\<close>

record app_state =
  projects :: "project list"
  selectedProject :: "project option"
  selectedSession :: "session option"
  activeSessions :: "string set"
  processedMessageIds :: "string set"
  placeholderSessions :: "(string \<times> placeholder_data) list"

section \<open>Session identity reconciler (App.jsx)\<close>

text \<open>\<^verbatim>\<open>s.startsWith(p)\<close>\<close>

definition startsWith :: "string \<Rightarrow> string \<Rightarrow> bool" where
  "startsWith s p = prefix p s"


definition markSessionAsInactive :: "string \<Rightarrow> app_state \<Rightarrow> app_state" where
  "markSessionAsInactive sessionId st =
     (if sessionId \<noteq> [] then st\<lparr>activeSessions := activeSessions st - {sessionId}\<rparr>
      else st)"

text \<open>
  \<^verbatim>\<open>handleNewSession\<close>. The clock and the random suffix are inputs: \<open>now\<close> is
  \<^verbatim>\<open>Date.now()\<close> and \<open>stamp\<close> is the text
  \<^verbatim>\<open>${Date.now()}-${Math.random().toString(36).substr(2, 9)}\<close>.
\<close>

definition bumpTotal :: "session_meta option \<Rightarrow> nat \<Rightarrow> session_meta option" where
  "bumpTotal m k =
     Some \<lparr>hasMore = (case m of None \<Rightarrow> None | Some sm \<Rightarrow> hasMore sm),
           total = (case m of None \<Rightarrow> 0 | Some sm \<Rightarrow> total sm) + k\<rparr>"




text \<open>\<^verbatim>\<open>replacePlaceholderSession(realSessionId, placeholderSessionId)\<close>\<close>

definition toReal :: "string \<Rightarrow> string \<Rightarrow> session \<Rightarrow> session" where
  "toReal realSessionId placeholderSessionId s =
     (if sess_id s = placeholderSessionId
      then s\<lparr>sess_id := realSessionId, isPlaceholder := False\<rparr>
      else s)"

definition replaceInProject :: "string \<Rightarrow> string \<Rightarrow> project \<Rightarrow> project" where
  "replaceInProject realSessionId placeholderSessionId p =
     (if \<exists>s \<in> set (sessions p). sess_id s = placeholderSessionId
      then p\<lparr>sessions := map (toReal realSessionId placeholderSessionId) (sessions p)\<rparr>
      else p)"

definition replacePlaceholderSession :: "string \<Rightarrow> string \<Rightarrow> app_state \<Rightarrow> app_state" where
  "replacePlaceholderSession realSessionId placeholderSessionId st =
     (if realSessionId \<noteq> [] \<and> placeholderSessionId \<noteq> [] then
        st\<lparr>placeholderSessions :=
              (if map_of (placeholderSessions st) placeholderSessionId \<noteq> None
               then AList.delete placeholderSessionId (placeholderSessions st)
               else placeholderSessions st),
           activeSessions := insert realSessionId (activeSessions st - {placeholderSessionId}),
           selectedSession :=
              (case selectedSession st of
                 None \<Rightarrow> None
               | Some s \<Rightarrow>
                   if sess_id s = placeholderSessionId
                   then Some (s\<lparr>sess_id := realSessionId, isPlaceholder := False\<rparr>)
                   else Some s),
           projects := map (replaceInProject realSessionId placeholderSessionId) (projects st),
           selectedProject :=
              (case selectedProject st of
                 None \<Rightarrow> None
               | Some sp \<Rightarrow> Some (replaceInProject realSessionId placeholderSessionId sp))\<rparr>
      else st)"

text \<open>
  \<^verbatim>\<open>isUpdateAdditive(currentProjects, updatedProjects, selectedProject, selectedSession)\<close>.
  The test of the selected project comes before the special case for placeholders, as in
  the source.
\<close>

definition isUpdateAdditive ::
  "project list \<Rightarrow> project list \<Rightarrow> project option \<Rightarrow> session option \<Rightarrow> bool" where
  "isUpdateAdditive currentProjects updatedProjects selProject selSession =
     (case (selProject, selSession) of
        (Some sp, Some ss) \<Rightarrow>
          (case (find (\<lambda>p. name p = name sp) currentProjects,
                 find (\<lambda>p. name p = name sp) updatedProjects) of
             (Some currentSelectedProject, Some updatedSelectedProject) \<Rightarrow>
               if isPlaceholder ss \<or> startsWith (sess_id ss) ''temp-'' then True
               else
                 (case (find (\<lambda>s. sess_id s = sess_id ss) (sessions currentSelectedProject),
                        find (\<lambda>s. sess_id s = sess_id ss) (sessions updatedSelectedProject)) of
                    (Some currentSelectedSession, Some updatedSelectedSession) \<Rightarrow>
                      sess_id currentSelectedSession = sess_id updatedSelectedSession \<and>
                      title currentSelectedSession = title updatedSelectedSession \<and>
                      created_at currentSelectedSession = created_at updatedSelectedSession \<and>
                      updated_at currentSelectedSession = updated_at updatedSelectedSession
                  | _ \<Rightarrow> False)
           | _ \<Rightarrow> False)
      | _ \<Rightarrow> True)"

text \<open>
  \<^verbatim>\<open>addPlaceholderSessions(projects)\<close>: reads the registry, writes back the valid
  entries when some were dropped, and prepends each project's placeholders to its
  sessions. It returns the projects and the registry.
\<close>

definition maxAge :: int where
  "maxAge = 24 * 60 * 60 * 1000"

definition pendingConversionTimeout :: int where
  "pendingConversionTimeout = 5 * 60 * 1000"

definition validPlaceholder :: "string set \<Rightarrow> int \<Rightarrow> placeholder_data \<Rightarrow> bool" where
  "validPlaceholder projectNames now d =
     (let isRecent = now - createdAt d < maxAge;
          projectExists = projectName d \<in> projectNames;
          isPendingConversion = pendingConversion d;
          pendingConversionExpired =
            (isPendingConversion \<and>
             now - (case pendingConversionTime d of None \<Rightarrow> 0 | Some t \<Rightarrow> t)
               > pendingConversionTimeout)
      in isRecent \<and> projectExists \<and> \<not> isPendingConversion \<and> \<not> pendingConversionExpired)"

definition placeholderToSession :: "string \<times> placeholder_data \<Rightarrow> session" where
  "placeholderToSession e =
     \<lparr>sess_id = fst e, title = ph_title (snd e), summary = ph_summary (snd e),
      created_at = ph_created_at (snd e), updated_at = ph_updated_at (snd e),
      lastActivity = ph_lastActivity (snd e), messageCount = None, cwd = None,
      isPlaceholder = True\<rparr>"

definition addPlaceholderSessions ::
  "project list \<Rightarrow> (string \<times> placeholder_data) list \<Rightarrow> int \<Rightarrow>
   project list \<times> (string \<times> placeholder_data) list" where
  "addPlaceholderSessions projs storedPlaceholders now =
     (let projectNames = set (map name projs);
          validPlaceholders =
            filter (\<lambda>e. validPlaceholder projectNames now (snd e)) storedPlaceholders;
          stored' =
            (if length validPlaceholders \<noteq> length storedPlaceholders
             then validPlaceholders else storedPlaceholders)
      in (map (\<lambda>p.
                let projectPlaceholders =
                      map placeholderToSession
                        (filter (\<lambda>e. projectName (snd e) = name p) validPlaceholders)
                in if length projectPlaceholders > 0
                   then p\<lparr>sessions := projectPlaceholders @ sessions p,
                          sessionMeta := bumpTotal (sessionMeta p) (length projectPlaceholders)\<rparr>
                   else p) projs,
          stored'))"

text \<open>
  The \<^verbatim>\<open>projects_updated\<close> branch of the WebSocket message effect.
  \<open>messageId\<close> is the identifier the effect computes for the message (from its type,
  timestamp and serialised text), \<open>updatedProjects\<close> is \<^verbatim>\<open>latestMessage.projects\<close>.
  \<^verbatim>\<open>JSON.stringify\<close> comparisons are equality of the values.
\<close>

definition hasActiveSession :: "app_state \<Rightarrow> bool" where
  "hasActiveSession st =
     ((case selectedSession st of
         None \<Rightarrow> False
       | Some s \<Rightarrow> sess_id s \<in> activeSessions st) \<or>
      (\<exists>i \<in> activeSessions st. startsWith i ''new-session-''))"

definition handleProjectsUpdated ::
  "string \<Rightarrow> project list \<Rightarrow> int \<Rightarrow> app_state \<Rightarrow> app_state" where
  "handleProjectsUpdated messageId updatedProjects now st =
     (if messageId \<in> processedMessageIds st then st
      else
        let st1 = st\<lparr>processedMessageIds := insert messageId (processedMessageIds st)\<rparr>
        in if hasActiveSession st \<and>
              \<not> isUpdateAdditive (projects st) updatedProjects
                   (selectedProject st) (selectedSession st)
           then st1
           else
             let r = addPlaceholderSessions updatedProjects (placeholderSessions st) now;
                 updatedProjectsWithPlaceholders = fst r;
                 st2 = st1\<lparr>projects :=
                              (if projects st = updatedProjectsWithPlaceholders
                               then projects st else updatedProjectsWithPlaceholders),
                           placeholderSessions := snd r\<rparr>
             in case selectedProject st of
                  None \<Rightarrow> st2
                | Some currentSelectedProject \<Rightarrow>
                    (case find (\<lambda>p. name p = name currentSelectedProject)
                            updatedProjectsWithPlaceholders of
                       None \<Rightarrow> st2
                     | Some updatedSelectedProject \<Rightarrow>
                         if updatedSelectedProject \<noteq> currentSelectedProject
                         then st2\<lparr>selectedProject := Some updatedSelectedProject,
                                  selectedSession :=
                                    (case selectedSession st of
                                       None \<Rightarrow> None
                                     | Some cs \<Rightarrow>
                                         (case find (\<lambda>s. sess_id s = sess_id cs)
                                                 (sessions updatedSelectedProject) of
                                            None \<Rightarrow> None
                                          | Some _ \<Rightarrow> Some cs))\<rparr>
                         else st2))"

section \<open>Session log reader (server/projects.js)\<close>

text \<open>
  A log file is a JSON-lines file, kept as the list of its lines. \<^verbatim>\<open>deleteSession\<close>
  reads the whole content and takes \<^verbatim>\<open>content.split('\\n')\<close>, which has an empty last
  piece when the content ends with a newline; the other readers go through the file with
  \<^verbatim>\<open>readline\<close> and skip the lines that are blank, so the list is for them the lines
  that \<^verbatim>\<open>readline\<close> delivers, with or without that last piece. A line is its text
  together with what \<^verbatim>\<open>JSON.parse\<close> makes of it (\<open>None\<close> when it throws), reduced to
  the fields the readers look at.
  A field that is absent, or not of the type the code expects, is \<open>None\<close>; a time stamp
  is the time value of \<^verbatim>\<open>new Date(entry.timestamp)\<close>, taken to be a valid date.
  Reading fails only for a directory that does not exist; other input and output errors
  are outside the model.
\<close>

record log_entry =
  entry_sessionId :: "string option"
  entry_cwd :: "string option"
  entry_timestamp :: "int option"
  entry_type :: "string option"
  entry_summary :: "string option"
  entry_role :: "string option"
  entry_content :: "string option"

record log_line =
  text_of :: string
  json :: "log_entry option"

record log_file =
  fileName :: string
  mtime :: int
  fileLines :: "log_line list"

text \<open>
  The directory \<^verbatim>\<open>~/.claude/projects\<close>: each project name has the listing of its
  directory, in \<^verbatim>\<open>readdir\<close> order, or \<open>None\<close> when the directory does not exist
  (\<^verbatim>\<open>ENOENT\<close>).
\<close>

type_synonym file_system = "string \<Rightarrow> log_file list option"

text \<open>
  The white space of \<^verbatim>\<open>trim()\<close> and of the class \<^verbatim>\<open>\\s\<close> of regular expressions.
  A character of this development is a code unit below 256; of these, JavaScript counts
  as white space the tabulation, line feed, vertical tabulation, form feed, carriage
  return, space and the no-break space \<^verbatim>\<open>U+00A0\<close>. (Its other white space,
  \<^verbatim>\<open>U+1680\<close>, \<^verbatim>\<open>U+2000\<close> to \<^verbatim>\<open>U+200A\<close>, \<^verbatim>\<open>U+2028\<close>, \<^verbatim>\<open>U+2029\<close>,
  \<^verbatim>\<open>U+202F\<close>, \<^verbatim>\<open>U+205F\<close>, \<^verbatim>\<open>U+3000\<close> and \<^verbatim>\<open>U+FEFF\<close>, lies above 255 and
  is no character here.) \<^verbatim>\<open>line.trim()\<close> is falsy when every character of the line is
  white space.
\<close>

definition isSpace :: "char \<Rightarrow> bool" where
  "isSpace c = (c \<in> {CHR 0x09, CHR 0x0A, CHR 0x0B, CHR 0x0C, CHR 0x0D, CHR '' '', CHR 0xA0})"

definition isBlank :: "log_line \<Rightarrow> bool" where
  "isBlank l = list_all isSpace (text_of l)"

definition endsWith :: "string \<Rightarrow> string \<Rightarrow> bool" where
  "endsWith s p = suffix p s"

definition jsonlFilesOf :: "log_file list \<Rightarrow> log_file list" where
  "jsonlFilesOf files = filter (\<lambda>f. endsWith (fileName f) ''.jsonl'') files"

text \<open>The entries a reader sees in a file: the lines that are not blank and parse.\<close>

definition entriesOf :: "log_file \<Rightarrow> log_entry list" where
  "entriesOf f =
     concat (map (\<lambda>l. if isBlank l then [] else (case json l of None \<Rightarrow> [] | Some e \<Rightarrow> [e]))
               (fileLines f))"

text \<open>
  A comparator \<^verbatim>\<open>(a, b) => key(b) - key(a)\<close> sorts by descending key, and
  \<^verbatim>\<open>Array.prototype.sort\<close> is stable: \<open>sort_key\<close> on the negated key.
\<close>

definition sortDesc :: "('a \<Rightarrow> int) \<Rightarrow> 'a list \<Rightarrow> 'a list" where
  "sortDesc k xs = sort_key (\<lambda>x. - k x) xs"

subsection \<open>parseJsonlSessions\<close>

text \<open>
  One iteration of the line loop for an entry that parsed. The \<^verbatim>\<open>Map\<close> of sessions
  keeps insertion order and is an association list. \<open>now\<close> is \<^verbatim>\<open>new Date()\<close>,
  read once for the whole call.
\<close>

definition parseEntry :: "int \<Rightarrow> log_entry \<Rightarrow> (string \<times> session) list \<Rightarrow> (string \<times> session) list" where
  "parseEntry now e m =
     (case entry_sessionId e of
        None \<Rightarrow> m
      | Some sid \<Rightarrow>
          if sid = [] then m
          else
            let s0 = (case map_of m sid of
                        Some s \<Rightarrow> s
                      | None \<Rightarrow>
                          \<lparr>sess_id = sid, title = None, summary = ''New Session'',
                           created_at = None, updated_at = None, lastActivity = now,
                           messageCount = Some 0,
                           cwd = Some (case entry_cwd e of None \<Rightarrow> [] | Some c \<Rightarrow> c),
                           isPlaceholder = False\<rparr>);
                s1 = (if entry_type e = Some ''summary'' \<and> entry_summary e \<noteq> None \<and>
                         entry_summary e \<noteq> Some []
                      then s0\<lparr>summary := the (entry_summary e)\<rparr>
                      else if entry_role e = Some ''user'' \<and> summary s0 = ''New Session''
                      then (case entry_content e of
                              None \<Rightarrow> s0
                            | Some content \<Rightarrow>
                                if length content > 0 \<and> \<not> startsWith content ''<command-name>''
                                then s0\<lparr>summary :=
                                          (if length content > 50 then take 50 content @ ''...''
                                           else content)\<rparr>
                                else s0)
                      else s0);
                s2 = s1\<lparr>messageCount :=
                          Some ((case messageCount s1 of None \<Rightarrow> 0 | Some n \<Rightarrow> n) + 1)\<rparr>;
                s3 = (case entry_timestamp e of None \<Rightarrow> s2 | Some t \<Rightarrow> s2\<lparr>lastActivity := t\<rparr>)
            in AList.update sid s3 m)"

definition parseJsonlSessions :: "int \<Rightarrow> log_file \<Rightarrow> session list" where
  "parseJsonlSessions now f =
     sortDesc lastActivity (map snd (fold (parseEntry now) (entriesOf f) []))"

subsection \<open>getSessions\<close>

record sessions_result =
  res_sessions :: "session list"
  res_hasMore :: bool
  res_total :: nat

definition noSessions :: sessions_result where
  "noSessions = \<lparr>res_sessions = [], res_hasMore = False, res_total = 0\<rparr>"

text \<open>\<^verbatim>\<open>if (!allSessions.has(session.id)) allSessions.set(session.id, session)\<close>\<close>

definition mergeSession :: "session \<Rightarrow> (string \<times> session) list \<Rightarrow> (string \<times> session) list" where
  "mergeSession s allSessions =
     (if map_of allSessions (sess_id s) = None then allSessions @ [(sess_id s, s)]
      else allSessions)"

text \<open>
  The loop over the files, newest first, with its early exit; \<open>need\<close> is
  \<^verbatim>\<open>(limit + offset) * 2\<close> and \<open>nfiles\<close> is \<^verbatim>\<open>filesWithStats.length\<close>.
\<close>

fun scanFiles ::
  "int \<Rightarrow> nat \<Rightarrow> nat \<Rightarrow> nat \<Rightarrow> log_file list \<Rightarrow> (string \<times> session) list \<Rightarrow> (string \<times> session) list" where
  "scanFiles now need nfiles processedCount [] allSessions = allSessions"
| "scanFiles now need nfiles processedCount (f # fs) allSessions =
     (let allSessions' = fold mergeSession (parseJsonlSessions now f) allSessions;
          processedCount' = processedCount + 1
      in if length allSessions' \<ge> need \<and> processedCount' \<ge> min 3 nfiles
         then allSessions'
         else scanFiles now need nfiles processedCount' fs allSessions')"

definition getSessions :: "int \<Rightarrow> file_system \<Rightarrow> string \<Rightarrow> nat \<Rightarrow> nat \<Rightarrow> sessions_result" where
  "getSessions now fsys projName limit offset =
     (case fsys projName of
        None \<Rightarrow> noSessions
      | Some files \<Rightarrow>
          let jsonlFiles = jsonlFilesOf files
          in if length jsonlFiles = 0 then noSessions
             else
               let filesWithStats = sortDesc mtime jsonlFiles;
                   allSessions =
                     scanFiles now ((limit + offset) * 2) (length filesWithStats) 0
                       filesWithStats [];
                   sortedSessions = sortDesc lastActivity (map snd allSessions);
                   total' = length sortedSessions
               in \<lparr>res_sessions = take limit (drop offset sortedSessions),
                   res_hasMore = (offset + limit < total'),
                   res_total = total'\<rparr>)"

subsection \<open>getSessionMessages\<close>

definition timeOf :: "log_entry \<Rightarrow> int" where
  "timeOf e = (case entry_timestamp e of None \<Rightarrow> 0 | Some t \<Rightarrow> t)"

definition collectMessages :: "string \<Rightarrow> log_file \<Rightarrow> log_entry list \<Rightarrow> log_entry list" where
  "collectMessages sessionId f messages =
     fold (\<lambda>l ms. if isBlank l then ms
                   else (case json l of
                           None \<Rightarrow> ms
                         | Some e \<Rightarrow> if entry_sessionId e = Some sessionId then ms @ [e] else ms))
          (fileLines f) messages"

definition getSessionMessages :: "file_system \<Rightarrow> string \<Rightarrow> string \<Rightarrow> log_entry list" where
  "getSessionMessages fsys projName sessionId =
     (if startsWith sessionId ''temp-'' then []
      else
        (case fsys projName of
           None \<Rightarrow> sort_key timeOf []
         | Some files \<Rightarrow>
             let jsonlFiles = jsonlFilesOf files
             in if length jsonlFiles = 0 then []
                else sort_key timeOf (fold (collectMessages sessionId) jsonlFiles [])))"

subsection \<open>deleteSession\<close>


definition nonBlankLines :: "log_file \<Rightarrow> log_line list" where
  "nonBlankLines f = filter (\<lambda>l. \<not> isBlank l) (fileLines f)"




definition emptyLine :: log_line where
  "emptyLine = \<lparr>text_of = [], json = None\<rparr>"



subsection \<open>smartDecodeProjectName and the encoding of addProjectManually\<close>

text \<open>\<^verbatim>\<open>s.split(c)\<close> and \<^verbatim>\<open>parts.join(sep)\<close>\<close>

fun splitOn :: "char \<Rightarrow> string \<Rightarrow> string list" where
  "splitOn c [] = [[]]"
| "splitOn c (x # xs) =
     (if x = c then [] # splitOn c xs
      else (case splitOn c xs of
              [] \<Rightarrow> [[x]]
            | w # ws \<Rightarrow> (x # w) # ws))"

fun joinWith :: "string \<Rightarrow> string list \<Rightarrow> string" where
  "joinWith sep [] = []"
| "joinWith sep [x] = x"
| "joinWith sep (x # y # zs) = x @ sep @ joinWith sep (y # zs)"

text \<open>
  A segment of more than one character whose first character is in \<^verbatim>\<open>'A'..'Z'\<close>,
  respectively in \<^verbatim>\<open>'a'..'z'\<close>.
\<close>

definition capitalizedPart :: "string \<Rightarrow> bool" where
  "capitalizedPart seg =
     (length seg > 1 \<and> (65::nat) \<le> of_char (hd seg) \<and> of_char (hd seg) \<le> (90::nat))"

definition lowercasePart :: "string \<Rightarrow> bool" where
  "lowercasePart seg =
     (length seg > 1 \<and> (97::nat) \<le> of_char (hd seg) \<and> of_char (hd seg) \<le> (122::nat))"

text \<open>
  The \<^verbatim>\<open>while (i < segments.length)\<close> loop of \<^verbatim>\<open>smartDecodeProjectName\<close>, on the
  segments from index \<open>i\<close> on; each round consumes at least one segment.
\<close>

function decodeSegments :: "string list \<Rightarrow> string list" where
  "decodeSegments [] = []"
| "decodeSegments (segment # rest) =
     (if length segment = 1 then segment # decodeSegments rest
      else if capitalizedPart segment then
        (let capitalizedGroup = segment # takeWhile capitalizedPart rest;
             n = length capitalizedGroup
         in if n = 1 then segment # decodeSegments rest
            else if n = 2
            then (capitalizedGroup ! 0 @ '' '' @ capitalizedGroup ! 1)
                   # decodeSegments (drop 1 rest)
            else take (n - 2) capitalizedGroup
                   @ [capitalizedGroup ! (n - 2) @ '' '' @ capitalizedGroup ! (n - 1)]
                   @ decodeSegments (drop (n - 1) rest))
      else
        (let lowercaseGroup = segment # takeWhile lowercasePart rest
         in joinWith ''-'' lowercaseGroup
              # decodeSegments (drop (length lowercaseGroup - 1) rest)))"
  by pat_completeness auto
termination
  by (relation "measure length") auto

definition smartDecodeProjectName :: "string \<Rightarrow> string" where
  "smartDecodeProjectName projName =
     (let workingName = (if startsWith projName ''-'' then drop 1 projName else projName);
          segments = splitOn (CHR ''-'') workingName
      in ''/'' @ joinWith ''/'' (decodeSegments segments))"



subsection \<open>extractProjectDirectory\<close>

record project_config =
  cfg_displayName :: "string option"
  manuallyAdded :: bool
  originalPath :: "string option"

text \<open>A string that is present and not empty is truthy.\<close>

definition truthy :: "string option \<Rightarrow> bool" where
  "truthy v = (v \<noteq> None \<and> v \<noteq> Some [])"

text \<open>
  The scan of the log entries: \<open>cwdCounts\<close> (a \<^verbatim>\<open>Map\<close>, in insertion order),
  \<open>latestTimestamp\<close> and \<open>latestCwd\<close>.
\<close>

record cwd_scan =
  cwdCounts :: "(string \<times> nat) list"
  latestTimestamp :: int
  latestCwd :: "string option"

definition scanEntry :: "log_entry \<Rightarrow> cwd_scan \<Rightarrow> cwd_scan" where
  "scanEntry e sc =
     (case entry_cwd e of
        None \<Rightarrow> sc
      | Some c \<Rightarrow>
          if c = [] then sc
          else
            let counts = AList.update c
                           ((case map_of (cwdCounts sc) c of None \<Rightarrow> 0 | Some k \<Rightarrow> k) + 1)
                           (cwdCounts sc);
                timestamp = timeOf e
            in if timestamp > latestTimestamp sc
               then \<lparr>cwdCounts = counts, latestTimestamp = timestamp, latestCwd = Some c\<rparr>
               else sc\<lparr>cwdCounts := counts\<rparr>)"

definition scanCwds :: "log_file list \<Rightarrow> cwd_scan" where
  "scanCwds jsonlFiles =
     fold (\<lambda>f sc. fold scanEntry (entriesOf f) sc) jsonlFiles
       \<lparr>cwdCounts = [], latestTimestamp = 0, latestCwd = None\<rparr>"

text \<open>
  The choice among the observed values. \<^verbatim>\<open>mostRecentCount >= maxCount * 0.25\<close> is
  \<open>4 * mostRecentCount \<ge> maxCount\<close> on the counts.
\<close>

definition maxCountOf :: "(string \<times> nat) list \<Rightarrow> nat" where
  "maxCountOf counts = fold max (map snd counts) 0"

definition chooseCwd :: "string \<Rightarrow> cwd_scan \<Rightarrow> string" where
  "chooseCwd projName sc =
     (if length (cwdCounts sc) = 0 then smartDecodeProjectName projName
      else if length (cwdCounts sc) = 1 then fst (hd (cwdCounts sc))
      else
        let mostRecentCount =
              (case latestCwd sc of
                 None \<Rightarrow> 0
               | Some c \<Rightarrow> (case map_of (cwdCounts sc) c of None \<Rightarrow> 0 | Some k \<Rightarrow> k));
            maxCount = maxCountOf (cwdCounts sc);
            extractedPath =
              (if 4 * mostRecentCount \<ge> maxCount then latestCwd sc
               else map_option fst (find (\<lambda>kv. snd kv = maxCount) (cwdCounts sc)))
        in if truthy extractedPath then the extractedPath
           else if truthy (latestCwd sc) then the (latestCwd sc)
           else smartDecodeProjectName projName)"

text \<open>
  \<^verbatim>\<open>extractProjectDirectory\<close> with its cache (\<^verbatim>\<open>projectDirectoryCache\<close>) and the
  project configuration file; it returns the path and the cache.
\<close>

type_synonym config = "(string \<times> project_config) list"

definition extractProjectDirectory ::
  "config \<Rightarrow> file_system \<Rightarrow> (string \<rightharpoonup> string) \<Rightarrow> string \<Rightarrow> string \<times> (string \<rightharpoonup> string)" where
  "extractProjectDirectory cfg fsys cache projName =
     (case cache projName of
        Some p \<Rightarrow> (p, cache)
      | None \<Rightarrow>
          let configured = (case map_of cfg projName of None \<Rightarrow> None | Some pc \<Rightarrow> originalPath pc)
          in if truthy configured then (the configured, cache(projName \<mapsto> the configured))
             else
               let extractedPath =
                     (case fsys projName of
                        None \<Rightarrow> smartDecodeProjectName projName
                      | Some files \<Rightarrow>
                          let jsonlFiles = jsonlFilesOf files
                          in if length jsonlFiles = 0 then smartDecodeProjectName projName
                             else chooseCwd projName (scanCwds jsonlFiles))
               in (extractedPath, cache(projName \<mapsto> extractedPath)))"

subsection \<open>getProjects\<close>

text \<open>
  \<^verbatim>\<open>generateDisplayName\<close>; \<open>packageName\<close> gives the \<^verbatim>\<open>name\<close> of the
  \<^verbatim>\<open>package.json\<close> under a path, when there is one that can be read.
\<close>

definition generateDisplayName :: "(string \<Rightarrow> string option) \<Rightarrow> string \<Rightarrow> string \<Rightarrow> string" where
  "generateDisplayName packageName projName actualProjectDir =
     (let projectPath =
            (if actualProjectDir \<noteq> [] then actualProjectDir
             else map (\<lambda>c. if c = CHR ''-'' then CHR ''/'' else c) projName)
      in if truthy (packageName projectPath) then the (packageName projectPath)
         else if startsWith projectPath ''/'' then
           (let parts = filter (\<lambda>w. w \<noteq> []) (splitOn (CHR ''/'') projectPath)
            in if length parts > 3
               then ''.../'' @ joinWith ''/'' (drop (length parts - 2) parts)
               else projectPath)
         else projectPath)"

text \<open>
  \<^verbatim>\<open>allSessions.filter((session, index, self) => index === self.findIndex(s => s.id === session.id))\<close>
  keeps the first session of each identity.
\<close>

definition uniqueSessions :: "session list \<Rightarrow> session list" where
  "uniqueSessions allSessions =
     fold (\<lambda>s acc. if sess_id s \<in> set (map sess_id acc) then acc else acc @ [s]) allSessions []"

record dirent =
  entryName :: string
  isDirectory :: bool

text \<open>
  The variables of \<^verbatim>\<open>getProjects\<close>: the \<^verbatim>\<open>projects\<close> array, the
  \<^verbatim>\<open>duplicateDetection\<close> map from a full path to its project, the set
  \<^verbatim>\<open>existingProjects\<close>, and the directory cache. A project object that sits both in
  the array and in the map is one object in the source; here both copies are updated,
  the array's copy being found by its name, as the source's own \<^verbatim>\<open>findIndex\<close> does.
\<close>

record gp_state =
  gp_projects :: "project list"
  duplicateDetection :: "string \<rightharpoonup> project"
  existingProjects :: "string set"
  gp_cache :: "string \<rightharpoonup> string"

text \<open>\<^verbatim>\<open>projects.splice(projects.findIndex(p => p.name === n), 1)\<close>\<close>

fun removeFirstNamed :: "string \<Rightarrow> project list \<Rightarrow> project list" where
  "removeFirstNamed n [] = []"
| "removeFirstNamed n (p # ps) = (if name p = n then ps else p # removeFirstNamed n ps)"

definition mergedMeta :: "session list \<Rightarrow> session_meta option" where
  "mergedMeta ss = Some \<lparr>hasMore = Some False, total = length ss\<rparr>"

text \<open>
  The duplicate detection, written out twice in the source (for the directories and for
  the configured projects): \<open>getS\<close> is \<^verbatim>\<open>getSessions\<close> with its default limit and
  offset, which never throws.
\<close>

definition addProject :: "(string \<Rightarrow> sessions_result) \<Rightarrow> project \<Rightarrow> gp_state \<Rightarrow> gp_state" where
  "addProject getS proj st =
     (case duplicateDetection st (fullPath proj) of
        Some existingProject \<Rightarrow>
          if isManuallyAdded proj \<and> \<not> isManuallyAdded existingProject then
            (let merged = uniqueSessions (res_sessions (getS (name existingProject))
                                           @ res_sessions (getS (name proj)));
                 proj' = proj\<lparr>sessions := merged, sessionMeta := mergedMeta merged\<rparr>
             in st\<lparr>duplicateDetection := (duplicateDetection st)(fullPath proj \<mapsto> proj'),
                   gp_projects :=
                     removeFirstNamed (name existingProject) (gp_projects st) @ [proj']\<rparr>)
          else if \<not> isManuallyAdded proj \<and> isManuallyAdded existingProject then st
          else
            (let merged = uniqueSessions (sessions existingProject
                                           @ res_sessions (getS (name proj)))
             in st\<lparr>duplicateDetection :=
                     (duplicateDetection st)(fullPath proj \<mapsto>
                        existingProject\<lparr>sessions := merged, sessionMeta := mergedMeta merged\<rparr>),
                   gp_projects :=
                     map (\<lambda>p. if name p = name existingProject
                              then p\<lparr>sessions := merged, sessionMeta := mergedMeta merged\<rparr>
                              else p) (gp_projects st)\<rparr>)
      | None \<Rightarrow>
          (let r = getS (name proj);
               proj' = proj\<lparr>sessions := res_sessions r,
                           sessionMeta := Some \<lparr>hasMore = Some False, total = res_total r\<rparr>\<rparr>
           in st\<lparr>duplicateDetection := (duplicateDetection st)(fullPath proj \<mapsto> proj'),
                 gp_projects := gp_projects st @ [proj']\<rparr>))"

text \<open>The project built for a directory of \<^verbatim>\<open>~/.claude/projects\<close>.\<close>

definition directoryProject ::
  "(string \<Rightarrow> string option) \<Rightarrow> config \<Rightarrow> string \<Rightarrow> string \<Rightarrow> project" where
  "directoryProject packageName cfg entName actualProjectDir =
     (let customName = (case map_of cfg entName of None \<Rightarrow> None | Some pc \<Rightarrow> cfg_displayName pc);
          autoDisplayName = generateDisplayName packageName entName actualProjectDir
      in \<lparr>name = entName, path = actualProjectDir,
          displayName = (if truthy customName then the customName else autoDisplayName),
          fullPath = actualProjectDir, isCustomName = truthy customName,
          isManuallyAdded = (case map_of cfg entName of None \<Rightarrow> False | Some pc \<Rightarrow> manuallyAdded pc),
          sessions = [], sessionMeta = None\<rparr>)"

definition directoryStep ::
  "int \<Rightarrow> (string \<Rightarrow> string option) \<Rightarrow> config \<Rightarrow> file_system \<Rightarrow> dirent \<Rightarrow> gp_state \<Rightarrow> gp_state" where
  "directoryStep now packageName cfg fsys ent st =
     (if isDirectory ent then
        (let r = extractProjectDirectory cfg fsys (gp_cache st) (entryName ent);
             st1 = st\<lparr>existingProjects := insert (entryName ent) (existingProjects st),
                      gp_cache := snd r\<rparr>
         in addProject (\<lambda>n. getSessions now fsys n 5 0)
              (directoryProject packageName cfg (entryName ent) (fst r)) st1)
      else st)"

text \<open>
  \<^verbatim>\<open>cleanupEmptyProjectDirectories\<close> removes the directories that have no line in any
  log file, whose name starts with a hyphen and that are not manually added.
\<close>

definition cleanupStep :: "config \<Rightarrow> dirent \<Rightarrow> file_system \<Rightarrow> file_system" where
  "cleanupStep cfg ent fsys =
     (if isDirectory ent then
        (case fsys (entryName ent) of
           None \<Rightarrow> fsys
         | Some files \<Rightarrow>
             let isEmpty = list_all (\<lambda>f. nonBlankLines f = []) (jsonlFilesOf files);
                 shouldKeep = list_ex (\<lambda>kv. manuallyAdded (snd kv) \<and> fst kv = entryName ent) cfg
             in if isEmpty \<and> startsWith (entryName ent) ''-'' \<and> \<not> shouldKeep
                then fsys(entryName ent := None)
                else fsys)
      else fsys)"

definition cleanupEmptyProjectDirectories :: "config \<Rightarrow> dirent list \<Rightarrow> file_system \<Rightarrow> file_system" where
  "cleanupEmptyProjectDirectories cfg entries fsys = fold (cleanupStep cfg) entries fsys"

text \<open>The project built for a configured project that has no directory.\<close>

definition configuredProject ::
  "(string \<Rightarrow> string option) \<Rightarrow> string \<Rightarrow> project_config \<Rightarrow> string \<Rightarrow> project" where
  "configuredProject packageName projName projectConfig actualProjectDir =
     \<lparr>name = projName, path = actualProjectDir,
      displayName =
        (if truthy (cfg_displayName projectConfig) then the (cfg_displayName projectConfig)
         else generateDisplayName packageName projName actualProjectDir),
      fullPath = actualProjectDir, isCustomName = truthy (cfg_displayName projectConfig),
      isManuallyAdded = True, sessions = [], sessionMeta = None\<rparr>"

definition configStep ::
  "int \<Rightarrow> (string \<Rightarrow> string option) \<Rightarrow> config \<Rightarrow> file_system \<Rightarrow>
   string \<times> project_config \<Rightarrow> gp_state \<Rightarrow> gp_state" where
  "configStep now packageName cfg fsys kv st =
     (if fst kv \<notin> existingProjects st \<and> manuallyAdded (snd kv) then
        (let r = (if truthy (originalPath (snd kv)) then (the (originalPath (snd kv)), gp_cache st)
                  else extractProjectDirectory cfg fsys (gp_cache st) (fst kv));
             st1 = st\<lparr>gp_cache := snd r\<rparr>
         in addProject (\<lambda>n. getSessions now fsys n 5 0)
              (configuredProject packageName (fst kv) (snd kv) (fst r)) st1)
      else st)"

text \<open>
  The final safeguard: a manually added project of the configuration that is not in the
  list by its name is pushed, with no look at \<^verbatim>\<open>duplicateDetection\<close>.
\<close>

definition safeguardStep ::
  "(string \<Rightarrow> string option) \<Rightarrow> string \<times> project_config \<Rightarrow> gp_state \<Rightarrow> gp_state" where
  "safeguardStep packageName kv st =
     (if manuallyAdded (snd kv) \<and> \<not> list_ex (\<lambda>p. name p = fst kv) (gp_projects st) then
        (let actualProjectDir =
               (if truthy (originalPath (snd kv)) then the (originalPath (snd kv))
                else smartDecodeProjectName (fst kv))
         in st\<lparr>gp_projects := gp_projects st @
                 [(configuredProject packageName (fst kv) (snd kv) actualProjectDir)
                    \<lparr>sessionMeta := Some \<lparr>hasMore = Some False, total = 0\<rparr>\<rparr>]\<rparr>)
      else st)"

text \<open>
  \<^verbatim>\<open>getProjects\<close>: the directories, the cleanup, the configured projects without a
  directory, the safeguard. \<open>entries\<close> is the listing of \<^verbatim>\<open>~/.claude/projects\<close>
  (empty when it cannot be read).
\<close>

definition afterDirectories ::
  "int \<Rightarrow> (string \<Rightarrow> string option) \<Rightarrow> config \<Rightarrow> dirent list \<Rightarrow> file_system \<Rightarrow>
   (string \<rightharpoonup> string) \<Rightarrow> gp_state" where
  "afterDirectories now packageName cfg entries fsys cache =
     fold (directoryStep now packageName cfg fsys) entries
       \<lparr>gp_projects = [], duplicateDetection = Map.empty, existingProjects = {},
        gp_cache = cache\<rparr>"

definition afterDuplicateDetection ::
  "int \<Rightarrow> (string \<Rightarrow> string option) \<Rightarrow> config \<Rightarrow> dirent list \<Rightarrow> file_system \<Rightarrow>
   (string \<rightharpoonup> string) \<Rightarrow> gp_state" where
  "afterDuplicateDetection now packageName cfg entries fsys cache =
     fold (configStep now packageName cfg (cleanupEmptyProjectDirectories cfg entries fsys)) cfg
       (afterDirectories now packageName cfg entries fsys cache)"

definition getProjects ::
  "int \<Rightarrow> (string \<Rightarrow> string option) \<Rightarrow> config \<Rightarrow> dirent list \<Rightarrow> file_system \<Rightarrow>
   (string \<rightharpoonup> string) \<Rightarrow> project list" where
  "getProjects now packageName cfg entries fsys cache =
     gp_projects
       (fold (safeguardStep packageName) cfg
          (afterDuplicateDetection now packageName cfg entries fsys cache))"

section \<open>Scenarios and example data\<close>


definition realSession :: session where
  "realSession = \<lparr>sess_id = ''s1'', title = Some ''Fix bug'', summary = ''Fix bug'',
     created_at = None, updated_at = None, lastActivity = 1000, messageCount = Some 2,
     cwd = Some ''/demo'', isPlaceholder = False\<rparr>"

definition demoProject :: project where
  "demoProject = \<lparr>name = ''demo'', path = ''/demo'', displayName = ''demo'', fullPath = ''/demo'',
     isCustomName = False, isManuallyAdded = False, sessions = [realSession],
     sessionMeta = Some \<lparr>hasMore = Some False, total = 1\<rparr>\<rparr>"

definition demoState :: app_state where
  "demoState = \<lparr>projects = [demoProject], selectedProject = None, selectedSession = None,
     activeSessions = {}, processedMessageIds = {}, placeholderSessions = []\<rparr>"

text \<open>
  The session \<^verbatim>\<open>s1\<close> of \<^verbatim>\<open>demo\<close> is selected; a snapshot arrives in which its title
  has changed.
\<close>

definition selectedState :: "string set \<Rightarrow> app_state" where
  "selectedState active =
     demoState\<lparr>selectedProject := Some demoProject, selectedSession := Some realSession,
               activeSessions := active\<rparr>"

definition renamedSnapshot :: "project list" where
  "renamedSnapshot = [demoProject\<lparr>sessions := [realSession\<lparr>title := Some ''Fix the bug''\<rparr>]\<rparr>]"

text \<open>A placeholder session is selected in \<^verbatim>\<open>demo\<close>.\<close>

definition placeholderSession :: session where
  "placeholderSession = \<lparr>sess_id = ''temp-123'', title = Some ''New Conversation'',
     summary = ''New Conversation'', created_at = Some 5, updated_at = Some 5,
     lastActivity = 5, messageCount = None, cwd = None, isPlaceholder = True\<rparr>"

definition placeholderProject :: project where
  "placeholderProject = demoProject\<lparr>sessions := [placeholderSession, realSession]\<rparr>"

text \<open>
  Two log files of the project \<^verbatim>\<open>demo\<close>. \<^verbatim>\<open>a.jsonl\<close> has an entry of session
  \<^verbatim>\<open>s1\<close>, a line that does not parse, a blank line and an entry of \<^verbatim>\<open>s2\<close>;
  \<^verbatim>\<open>b.jsonl\<close>, modified later, has an older entry of \<^verbatim>\<open>s1\<close>. Both end with a newline.
\<close>

definition entryOf :: "string \<Rightarrow> int \<Rightarrow> string \<Rightarrow> log_entry" where
  "entryOf sid t c = \<lparr>entry_sessionId = Some sid, entry_cwd = Some c, entry_timestamp = Some t,
     entry_type = Some ''user'', entry_summary = None, entry_role = Some ''user'',
     entry_content = Some ''hello''\<rparr>"

definition lineOf :: "string \<Rightarrow> string \<Rightarrow> int \<Rightarrow> string \<Rightarrow> log_line" where
  "lineOf txt sid t c = \<lparr>text_of = txt, json = Some (entryOf sid t c)\<rparr>"

definition brokenLine :: log_line where
  "brokenLine = \<lparr>text_of = ''{oops'', json = None\<rparr>"

definition fileA :: log_file where
  "fileA = \<lparr>fileName = ''a.jsonl'', mtime = 10,
     fileLines = [lineOf ''A1'' ''s1'' 30 ''/demo'', brokenLine, emptyLine,
                  lineOf ''A2'' ''s2'' 20 ''/demo'', emptyLine]\<rparr>"

definition fileB :: log_file where
  "fileB = \<lparr>fileName = ''b.jsonl'', mtime = 20,
     fileLines = [lineOf ''B1'' ''s1'' 10 ''/demo'', emptyLine]\<rparr>"

definition demoFiles :: file_system where
  "demoFiles = (\<lambda>n. if n = ''demo'' then Some [fileA, fileB] else None)"

text \<open>
  Two projects with two working directories in their logs: in \<^verbatim>\<open>c\<close> four entries
  have \<^verbatim>\<open>/a\<close> and the latest one has \<^verbatim>\<open>/b\<close>; in \<^verbatim>\<open>d\<close> five have \<^verbatim>\<open>/a\<close> and the
  latest one has \<^verbatim>\<open>/b\<close>.
\<close>

definition cwdLine :: "string \<Rightarrow> int \<Rightarrow> log_line" where
  "cwdLine c t = \<lparr>text_of = ''{}'', json = Some \<lparr>entry_sessionId = Some ''s1'', entry_cwd = Some c,
     entry_timestamp = Some t, entry_type = Some ''user'', entry_summary = None,
     entry_role = Some ''user'', entry_content = Some ''hello''\<rparr>\<rparr>"

definition fileC :: log_file where
  "fileC = \<lparr>fileName = ''c.jsonl'', mtime = 10,
     fileLines = [cwdLine ''/a'' 1, cwdLine ''/a'' 2, cwdLine ''/a'' 3, cwdLine ''/a'' 4,
                  cwdLine ''/b'' 5]\<rparr>"

definition fileD :: log_file where
  "fileD = \<lparr>fileName = ''d.jsonl'', mtime = 10,
     fileLines = [cwdLine ''/a'' 1, cwdLine ''/a'' 2, cwdLine ''/a'' 3, cwdLine ''/a'' 4,
                  cwdLine ''/a'' 5, cwdLine ''/b'' 6]\<rparr>"

definition cwdFiles :: file_system where
  "cwdFiles = (\<lambda>n. if n = ''c'' then Some [fileC] else if n = ''d'' then Some [fileD] else None)"

text \<open>
  A configuration with two manually added projects for the path \<^verbatim>\<open>/home/demo\<close>, one
  under the current name and one under a name without the leading hyphen; the first has
  its (empty) directory.
\<close>

definition manualAt :: "string \<Rightarrow> project_config" where
  "manualAt p = \<lparr>cfg_displayName = None, manuallyAdded = True, originalPath = Some p\<rparr>"

definition twoManual :: config where
  "twoManual = [(''-home-demo'', manualAt ''/home/demo''), (''home-demo'', manualAt ''/home/demo'')]"

definition oneDirectory :: "dirent list" where
  "oneDirectory = [\<lparr>entryName = ''-home-demo'', isDirectory = True\<rparr>]"

definition emptyDirectory :: file_system where
  "emptyDirectory = (\<lambda>n. if n = ''-home-demo'' then Some [] else None)"

section \<open>Notions of the specification\<close>

text \<open>
  The working directories observed across the log entries of a project, each with the
  time of its entry (\<open>0\<close> when the entry has none), in the order they are read.
\<close>

definition cwdOf :: "log_entry \<Rightarrow> (string \<times> int) list" where
  "cwdOf e = (case entry_cwd e of None \<Rightarrow> [] | Some c \<Rightarrow> if c = [] then [] else [(c, timeOf e)])"

definition observedCwds :: "log_file list \<Rightarrow> (string \<times> int) list" where
  "observedCwds jsonlFiles = concat (map cwdOf (concat (map entriesOf jsonlFiles)))"

text \<open>
  The most recently observed working directory: that of the first observation with the
  greatest time, when that time is positive.
\<close>

definition mostRecent :: "(string \<times> int) list \<Rightarrow> string option" where
  "mostRecent obs =
     (if obs = [] then None
      else if Max (snd ` set obs) \<le> 0 then None
      else map_option fst (find (\<lambda>ob. snd ob = Max (snd ` set obs)) obs))"



text \<open>
  The candidates of the duplicate detection of \<^verbatim>\<open>getProjects\<close>, in the order they are
  met: the project of every directory, then the project of every manually added entry
  of the configuration that has no directory. The cache is threaded as in the source.
\<close>

fun directoryCandidates ::
  "(string \<Rightarrow> string option) \<Rightarrow> config \<Rightarrow> file_system \<Rightarrow> dirent list \<Rightarrow> (string \<rightharpoonup> string) \<Rightarrow> project list" where
  "directoryCandidates packageName cfg fsys [] cache = []"
| "directoryCandidates packageName cfg fsys (ent # ents) cache =
     (if isDirectory ent
      then directoryProject packageName cfg (entryName ent)
             (fst (extractProjectDirectory cfg fsys cache (entryName ent)))
           # directoryCandidates packageName cfg fsys ents
               (snd (extractProjectDirectory cfg fsys cache (entryName ent)))
      else directoryCandidates packageName cfg fsys ents cache)"

fun configCandidates ::
  "(string \<Rightarrow> string option) \<Rightarrow> config \<Rightarrow> file_system \<Rightarrow> string set \<Rightarrow>
   (string \<times> project_config) list \<Rightarrow> (string \<rightharpoonup> string) \<Rightarrow> project list" where
  "configCandidates packageName cfg fsys existing [] cache = []"
| "configCandidates packageName cfg fsys existing (kv # kvs) cache =
     (if fst kv \<notin> existing \<and> manuallyAdded (snd kv)
      then (let r = (if truthy (originalPath (snd kv)) then (the (originalPath (snd kv)), cache)
                     else extractProjectDirectory cfg fsys cache (fst kv))
            in configuredProject packageName (fst kv) (snd kv) (fst r)
               # configCandidates packageName cfg fsys existing kvs (snd r))
      else configCandidates packageName cfg fsys existing kvs cache)"

definition candidates ::
  "int \<Rightarrow> (string \<Rightarrow> string option) \<Rightarrow> config \<Rightarrow> dirent list \<Rightarrow> file_system \<Rightarrow>
   (string \<rightharpoonup> string) \<Rightarrow> project list" where
  "candidates now packageName cfg entries fsys cache =
     directoryCandidates packageName cfg fsys entries cache
     @ configCandidates packageName cfg (cleanupEmptyProjectDirectories cfg entries fsys)
         (existingProjects (afterDirectories now packageName cfg entries fsys cache)) cfg
         (gp_cache (afterDirectories now packageName cfg entries fsys cache))"

text \<open>
  The project that wins a full path among the candidates: the first manually added one,
  else the first one.
\<close>

definition winner :: "project list \<Rightarrow> string \<Rightarrow> project option" where
  "winner cands x =
     (case find (\<lambda>c. fullPath c = x \<and> isManuallyAdded c) cands of
        Some c \<Rightarrow> Some c
      | None \<Rightarrow> find (\<lambda>c. fullPath c = x) cands)"

text \<open>The project the safeguard pushes for an entry of the configuration.\<close>

definition safeguardProject :: "(string \<Rightarrow> string option) \<Rightarrow> string \<times> project_config \<Rightarrow> project" where
  "safeguardProject packageName kv =
     (configuredProject packageName (fst kv) (snd kv)
        (if truthy (originalPath (snd kv)) then the (originalPath (snd kv))
         else smartDecodeProjectName (fst kv)))
     \<lparr>sessionMeta := Some \<lparr>hasMore = Some False, total = 0\<rparr>\<rparr>"

section \<open>Predicates of the proofs\<close>

text \<open>
  A session map whose keys are distinct and are the identities of their sessions.
\<close>

definition keyed :: "(string \<times> session) list \<Rightarrow> bool" where
  "keyed m = (distinct (map fst m) \<and> (\<forall>k s. map_of m k = Some s \<longrightarrow> sess_id s = k))"

text \<open>
  The session record \<open>s\<close> comes from the first file of \<open>fs\<close> that has a session of its
  identity.
\<close>

definition firstIn :: "int \<Rightarrow> log_file list \<Rightarrow> session \<Rightarrow> bool" where
  "firstIn now fs s =
     (\<exists>pre f post. fs = pre @ f # post \<and> s \<in> set (parseJsonlSessions now f) \<and>
        (\<forall>g \<in> set pre. sess_id s \<notin> sess_id ` set (parseJsonlSessions now g)))"

text \<open>
  What the scan of \<^verbatim>\<open>extractProjectDirectory\<close> holds after the observations \<open>obs\<close>:
  the count of each observed directory, the most recent one and the greatest time.
\<close>

definition scanInv :: "(string \<times> int) list \<Rightarrow> cwd_scan \<Rightarrow> bool" where
  "scanInv obs sc =
     (distinct (map fst (cwdCounts sc))
      \<and> (\<forall>c. map_of (cwdCounts sc) c
              = (if c \<in> fst ` set obs then Some (count_list (map fst obs) c) else None))
      \<and> latestCwd sc = mostRecent obs
      \<and> latestTimestamp sc = (if obs = [] then 0 else max 0 (Max (snd ` set obs)))
      \<and> [] \<notin> fst ` set obs)"

text \<open>
  What the duplicate detection keeps: full paths and names are distinct in the list, and
  the map and the list hold the same projects; the map holds, for every path, the winner
  among the candidates met so far, with its sessions filled in.
\<close>

definition gpInv :: "gp_state \<Rightarrow> bool" where
  "gpInv st =
     (distinct (map fullPath (gp_projects st))
      \<and> distinct (map name (gp_projects st))
      \<and> (\<forall>x q. duplicateDetection st x = Some q \<longrightarrow> q \<in> set (gp_projects st) \<and> fullPath q = x)
      \<and> (\<forall>p \<in> set (gp_projects st). duplicateDetection st (fullPath p) = Some p))"

definition winnerInv :: "project list \<Rightarrow> gp_state \<Rightarrow> bool" where
  "winnerInv cands st =
     (\<forall>x. case winner cands x of
             None \<Rightarrow> duplicateDetection st x = None
           | Some w \<Rightarrow> (\<exists>ss m. duplicateDetection st x = Some (w\<lparr>sessions := ss, sessionMeta := m\<rparr>)))"

definition phaseInv :: "project list \<Rightarrow> string set \<Rightarrow> gp_state \<Rightarrow> bool" where
  "phaseInv cands names st =
     (gpInv st \<and> winnerInv cands st
      \<and> (\<forall>p \<in> set (gp_projects st). distinct (map sess_id (sessions p)))
      \<and> name ` set (gp_projects st) \<subseteq> names)"

section \<open>Verified properties\<close>

subsection \<open>Replacing a placeholder\<close>

lemma toReal_idem: "toReal R P (toReal R P s) = toReal R P s"
  by (simp add: toReal_def)


lemma replaceInProject_map: "replaceInProject R P p = p\<lparr>sessions := map (toReal R P) (sessions p)\<rparr>"
proof (cases "\<exists>s \<in> set (sessions p). sess_id s = P")
  case True
  then show ?thesis by (simp add: replaceInProject_def)
next
  case False
  then have "map (toReal R P) (sessions p) = sessions p"
    by (simp add: toReal_def map_idI)
  with False show ?thesis by (simp add: replaceInProject_def)
qed

lemma replaceInProject_idem: "replaceInProject R P (replaceInProject R P p) = replaceInProject R P p"
  by (simp add: replaceInProject_map toReal_idem)


lemma map_of_delete_self: "map_of (AList.delete P reg) P = None"
  by (simp add: AList.delete_conv')

lemma replacePlaceholderSession_idem:
  "replacePlaceholderSession R P (replacePlaceholderSession R P st) = replacePlaceholderSession R P st"
proof (cases "R \<noteq> [] \<and> P \<noteq> []")
  case False
  then show ?thesis by (auto simp add: replacePlaceholderSession_def)
next
  case True
  then show ?thesis
    unfolding replacePlaceholderSession_def
    by (cases st) (auto simp add: map_of_delete_self replaceInProject_idem insert_Diff_if
        split: option.splits)
qed

lemma ids_toReal: "map sess_id (map (toReal R P) ss) = map (\<lambda>i. if i = P then R else i) (map sess_id ss)"
  by (simp add: toReal_def comp_def cong: map_cong)

lemma distinct_toReal:
  assumes "distinct (map sess_id ss)" "R \<notin> set (map sess_id ss)"
  shows "distinct (map sess_id (map (toReal R P) ss))"
proof -
  have "inj_on (\<lambda>i. if i = P then R else i) (set (map sess_id ss))"
    using assms(2) by (auto simp: inj_on_def split: if_splits)
  with assms(1) have "distinct (map (\<lambda>i. if i = P then R else i) (map sess_id ss))"
    by (subst distinct_map) simp
  then show ?thesis
    by (simp only: ids_toReal)
qed

lemma projects_replace:
  "projects (replacePlaceholderSession R P st) =
     (if R \<noteq> [] \<and> P \<noteq> [] then map (replaceInProject R P) (projects st) else projects st)"
  by (simp add: replacePlaceholderSession_def)

lemma replaceInProject_keeps:
  "length (sessions (replaceInProject R P p)) = length (sessions p) \<and>
   (distinct (map sess_id (sessions p)) \<and> R \<notin> set (map sess_id (sessions p))
      \<longrightarrow> distinct (map sess_id (sessions (replaceInProject R P p))))"
  using distinct_toReal [of "sessions p" R P] by (simp add: replaceInProject_map)






lemmas ex_defs = selectedState_def demoState_def demoProject_def realSession_def renamedSnapshot_def
  placeholderProject_def placeholderSession_def





text \<open>
  C4. A second call of \<^verbatim>\<open>replacePlaceholderSession\<close> with the same \<open>R\<close> and \<open>P\<close>
  changes nothing: the state after two calls is the state after one. No call adds an
  entry to a session list (each list keeps its length, position by position), and a list
  whose identities were distinct and did not contain \<open>R\<close> has distinct identities
  afterwards, so the conversation has one entry. The Protection Set, a set, contains
  \<open>R\<close>.
\<close>

theorem replacePlaceholderSession_twice:
  "replacePlaceholderSession R P (replacePlaceholderSession R P st) = replacePlaceholderSession R P st
   \<and> list_all2 (\<lambda>p q. length (sessions q) = length (sessions p) \<and>
                  (distinct (map sess_id (sessions p)) \<and> R \<notin> set (map sess_id (sessions p))
                     \<longrightarrow> distinct (map sess_id (sessions q))))
        (projects st) (projects (replacePlaceholderSession R P (replacePlaceholderSession R P st)))
   \<and> (R \<noteq> [] \<and> P \<noteq> [] \<longrightarrow>
        R \<in> activeSessions (replacePlaceholderSession R P (replacePlaceholderSession R P st)))"
proof (intro conjI)
  show "replacePlaceholderSession R P (replacePlaceholderSession R P st) = replacePlaceholderSession R P st"
    by (rule replacePlaceholderSession_idem)
next
  have "list_all2 (\<lambda>p q. length (sessions q) = length (sessions p) \<and>
                  (distinct (map sess_id (sessions p)) \<and> R \<notin> set (map sess_id (sessions p))
                     \<longrightarrow> distinct (map sess_id (sessions q))))
        (projects st) (projects (replacePlaceholderSession R P st))"
    unfolding projects_replace
    by (auto simp: list_all2_map2 replaceInProject_keeps intro!: list_all2_refl)
  then show "list_all2 (\<lambda>p q. length (sessions q) = length (sessions p) \<and>
                  (distinct (map sess_id (sessions p)) \<and> R \<notin> set (map sess_id (sessions p))
                     \<longrightarrow> distinct (map sess_id (sessions q))))
        (projects st) (projects (replacePlaceholderSession R P (replacePlaceholderSession R P st)))"
    by (simp only: replacePlaceholderSession_idem)
next
  show "R \<noteq> [] \<and> P \<noteq> [] \<longrightarrow>
        R \<in> activeSessions (replacePlaceholderSession R P (replacePlaceholderSession R P st))"
    by (simp add: replacePlaceholderSession_idem) (simp add: replacePlaceholderSession_def)
qed


theorem replacePlaceholderSession_twice_witness:
  "replacePlaceholderSession ''abc-real'' ''temp-123''
     (replacePlaceholderSession ''abc-real'' ''temp-123''
        (demoState\<lparr>projects := [placeholderProject], activeSessions := {''temp-123''}\<rparr>))
   = demoState\<lparr>projects :=
                  [demoProject\<lparr>sessions :=
                     [placeholderSession\<lparr>sess_id := ''abc-real'', isPlaceholder := False\<rparr>,
                      realSession]\<rparr>],
                activeSessions := {''abc-real''}\<rparr>
   \<and> distinct (map sess_id (sessions placeholderProject))
   \<and> ''abc-real'' \<notin> set (map sess_id (sessions placeholderProject))"
  using replacePlaceholderSession_twice [of "''abc-real''" "''temp-123''"
      "demoState\<lparr>projects := [placeholderProject], activeSessions := {''temp-123''}\<rparr>"]
  by (simp add: ex_defs replacePlaceholderSession_def replaceInProject_def toReal_def)

subsection \<open>Background snapshots\<close>

lemma hasActive_selected:
  "selectedSession st = Some s \<Longrightarrow> sess_id s \<in> activeSessions st \<Longrightarrow> hasActiveSession st"
  by (simp add: hasActiveSession_def)

lemma hasActive_none:
  "selectedSession st = Some s \<Longrightarrow> sess_id s \<notin> activeSessions st \<Longrightarrow>
   \<forall>i \<in> activeSessions st. \<not> startsWith i ''new-session-'' \<Longrightarrow> \<not> hasActiveSession st"
  by (simp add: hasActiveSession_def)

lemma projects_applied:
  "messageId \<notin> processedMessageIds st \<Longrightarrow> \<not> hasActiveSession st \<Longrightarrow>
   projects (handleProjectsUpdated messageId updated now st)
     = fst (addPlaceholderSessions updated (placeholderSessions st) now)"
  by (simp add: handleProjectsUpdated_def Let_def split: option.splits)

lemma not_additive_changed:
  assumes "selectedProject st = Some sp" "selectedSession st = Some s"
    "\<not> isPlaceholder s" "\<not> startsWith (sess_id s) ''temp-''"
    "find (\<lambda>p. name p = name sp) (projects st) = Some cp"
    "find (\<lambda>p. name p = name sp) updated = Some up"
    "find (\<lambda>x. sess_id x = sess_id s) (sessions cp) = Some cs"
    "find (\<lambda>x. sess_id x = sess_id s) (sessions up) = Some us"
    "title cs \<noteq> title us \<or> created_at cs \<noteq> created_at us \<or> updated_at cs \<noteq> updated_at us"
  shows "\<not> isUpdateAdditive (projects st) updated (selectedProject st) (selectedSession st)"
  using assms by (auto simp add: isUpdateAdditive_def)


text \<open>
  C2, as it is stated, fails: the selected session \<^verbatim>\<open>s1\<close> is real and is not in the
  Protection Set, which holds a \<^verbatim>\<open>new-session-\<close> marker; the snapshot that changes the
  title of \<^verbatim>\<open>s1\<close> is still not applied.
\<close>

theorem new_session_marker_counterexample:
  "sess_id realSession \<notin> activeSessions (selectedState {''new-session-1''})
   \<and> projects (handleProjectsUpdated ''m1'' renamedSnapshot 0 (selectedState {''new-session-1''}))
       = projects (selectedState {''new-session-1''})
   \<and> projects (selectedState {''new-session-1''})
       \<noteq> fst (addPlaceholderSessions renamedSnapshot
                (placeholderSessions (selectedState {''new-session-1''})) 0)"
  by (simp add: handleProjectsUpdated_def hasActiveSession_def isUpdateAdditive_def ex_defs startsWith_def
    addPlaceholderSessions_def Let_def)


text \<open>
  C2, amended. A real session \<open>s\<close> of the selected project is selected, and the snapshot
  changes its title, or its \<^verbatim>\<open>created_at\<close> or \<^verbatim>\<open>updated_at\<close>. While the Protection
  Set contains the identity of \<open>s\<close>, the message changes nothing but the set of processed
  message identifiers: the projects are left as they are. When the Protection Set
  contains neither that identity nor a \<^verbatim>\<open>new-session-\<close> marker, the snapshot is
  applied in full: the projects become the snapshot, with the valid placeholders added.
\<close>

theorem changed_snapshot_suppressed_while_protected:
  assumes "messageId \<notin> processedMessageIds st"
    and "selectedProject st = Some sp" and "selectedSession st = Some s"
    and "\<not> isPlaceholder s" and "\<not> startsWith (sess_id s) ''temp-''"
    and "find (\<lambda>p. name p = name sp) (projects st) = Some cp"
    and "find (\<lambda>p. name p = name sp) updated = Some up"
    and "find (\<lambda>x. sess_id x = sess_id s) (sessions cp) = Some cs"
    and "find (\<lambda>x. sess_id x = sess_id s) (sessions up) = Some us"
    and "title cs \<noteq> title us \<or> created_at cs \<noteq> created_at us \<or> updated_at cs \<noteq> updated_at us"
  shows "(sess_id s \<in> activeSessions st \<longrightarrow>
            handleProjectsUpdated messageId updated now st
              = st\<lparr>processedMessageIds := insert messageId (processedMessageIds st)\<rparr>)
       \<and> (sess_id s \<notin> activeSessions st \<and>
            (\<forall>i \<in> activeSessions st. \<not> startsWith i ''new-session-'') \<longrightarrow>
            projects (handleProjectsUpdated messageId updated now st)
              = fst (addPlaceholderSessions updated (placeholderSessions st) now))"
proof (intro conjI impI)
  assume "sess_id s \<in> activeSessions st"
  with assms(3) have "hasActiveSession st" by (rule hasActive_selected)
  moreover have "\<not> isUpdateAdditive (projects st) updated (selectedProject st) (selectedSession st)"
    by (rule not_additive_changed [OF assms(2-10)])
  ultimately show "handleProjectsUpdated messageId updated now st
              = st\<lparr>processedMessageIds := insert messageId (processedMessageIds st)\<rparr>"
    using assms(1) by (simp add: handleProjectsUpdated_def)
next
  assume "sess_id s \<notin> activeSessions st \<and> (\<forall>i \<in> activeSessions st. \<not> startsWith i ''new-session-'')"
  with assms(3) have "\<not> hasActiveSession st" by (simp add: hasActive_none)
  with assms(1) show "projects (handleProjectsUpdated messageId updated now st)
              = fst (addPlaceholderSessions updated (placeholderSessions st) now)"
    by (rule projects_applied)
qed

theorem changed_snapshot_witness:
  "''m1'' \<notin> processedMessageIds (selectedState {''s1''})
   \<and> sess_id realSession \<in> activeSessions (selectedState {''s1''})
   \<and> title realSession \<noteq> Some ''Fix the bug''
   \<and> handleProjectsUpdated ''m1'' renamedSnapshot 0 (selectedState {''s1''})
        = (selectedState {''s1''})\<lparr>processedMessageIds := {''m1''}\<rparr>
   \<and> sess_id realSession \<notin> activeSessions (selectedState {''s2''})
   \<and> \<not> startsWith ''s2'' ''new-session-''
   \<and> projects (handleProjectsUpdated ''m1'' renamedSnapshot 0 (selectedState {''s2''}))
        = renamedSnapshot"
  using changed_snapshot_suppressed_while_protected [where messageId = "''m1''"
      and st = "selectedState {''s1''}" and sp = demoProject and s = realSession
      and cp = demoProject and updated = renamedSnapshot
      and up = "demoProject\<lparr>sessions := [realSession\<lparr>title := Some ''Fix the bug''\<rparr>]\<rparr>"
      and cs = realSession and us = "realSession\<lparr>title := Some ''Fix the bug''\<rparr>" and now = 0]
    changed_snapshot_suppressed_while_protected [where messageId = "''m1''"
      and st = "selectedState {''s2''}" and sp = demoProject and s = realSession
      and cp = demoProject and updated = renamedSnapshot
      and up = "demoProject\<lparr>sessions := [realSession\<lparr>title := Some ''Fix the bug''\<rparr>]\<rparr>"
      and cs = realSession and us = "realSession\<lparr>title := Some ''Fix the bug''\<rparr>" and now = 0]
  by (simp add: ex_defs startsWith_def addPlaceholderSessions_def)


text \<open>
  C3, as it is stated, fails: a placeholder is selected and the selected project is not
  in the new snapshot; the check answers false, because the test of the project comes
  before the special case for placeholders.
\<close>

theorem placeholder_project_gate_counterexample:
  "isUpdateAdditive [placeholderProject] [] (Some placeholderProject) (Some placeholderSession) = False"
  by (simp add: isUpdateAdditive_def)


text \<open>
  C3, amended. When the selected session is a placeholder (its flag is set or its
  identity starts with \<^verbatim>\<open>temp-\<close>) and the selected project, if there is one, is found
  by its name in the current projects and in the snapshot, the check answers true,
  whether or not the session is in the snapshot and whatever the snapshot changes.
\<close>

theorem placeholder_update_allowed:
  assumes "isPlaceholder s \<or> startsWith (sess_id s) ''temp-''"
    and "case sp of None \<Rightarrow> True
         | Some p \<Rightarrow> find (\<lambda>q. name q = name p) currentProjects \<noteq> None
                    \<and> find (\<lambda>q. name q = name p) updatedProjects \<noteq> None"
  shows "isUpdateAdditive currentProjects updatedProjects sp (Some s) = True"
  using assms by (auto simp: isUpdateAdditive_def split: option.splits)

theorem placeholder_update_allowed_witness:
  "isPlaceholder placeholderSession
   \<and> find (\<lambda>q. name q = name placeholderProject) [placeholderProject] \<noteq> None
   \<and> find (\<lambda>q. name q = name placeholderProject) [demoProject] \<noteq> None
   \<and> find (\<lambda>x. sess_id x = sess_id placeholderSession) (sessions demoProject) = None
   \<and> isUpdateAdditive [placeholderProject] [demoProject] (Some placeholderProject)
        (Some placeholderSession) = True"
  using placeholder_update_allowed [where s = placeholderSession and sp = "Some placeholderProject"
      and currentProjects = "[placeholderProject]" and updatedProjects = "[demoProject]"]
  by (simp add: ex_defs)

subsection \<open>Listing sessions\<close>


lemma keyed_ids: "keyed m \<Longrightarrow> map sess_id (map snd m) = map fst m"
proof -
  assume k: "keyed m"
  have "\<forall>kv \<in> set m. sess_id (snd kv) = fst kv"
  proof
    fix kv assume "kv \<in> set m"
    then have "map_of m (fst kv) = Some (snd kv)"
      using k by (simp add: keyed_def)
    with k show "sess_id (snd kv) = fst kv" by (simp add: keyed_def)
  qed
  then show ?thesis by (induction m) auto
qed

lemma parseEntry_keys:
  "fst ` set (parseEntry now e m)
     = fst ` set m \<union> {sid. sid \<noteq> [] \<and> entry_sessionId e = Some sid}"
  by (auto simp: parseEntry_def Let_def dom_update split: option.splits)

lemma keyed_distinct_ids: "keyed m \<Longrightarrow> distinct (map sess_id (map snd m))"
  by (simp only: keyed_ids) (simp add: keyed_def)

lemma keyed_update: "keyed m \<Longrightarrow> sess_id s = k \<Longrightarrow> keyed (AList.update k s m)"
  by (simp add: keyed_def distinct_update update_conv')

lemma parseEntry_shape:
  assumes "keyed m"
  shows "parseEntry now e m = m \<or> (\<exists>s. parseEntry now e m = AList.update (sess_id s) s m)"
proof (cases "entry_sessionId e")
  case None
  then show ?thesis by (simp add: parseEntry_def)
next
  case (Some sid)
  show ?thesis
  proof (cases "sid = []")
    case True
    with Some show ?thesis by (simp add: parseEntry_def)
  next
    case False
    define s0 where "s0 = (case map_of m sid of
                        Some s \<Rightarrow> s
                      | None \<Rightarrow>
                          \<lparr>sess_id = sid, title = None, summary = ''New Session'',
                           created_at = None, updated_at = None, lastActivity = now,
                           messageCount = Some 0,
                           cwd = Some (case entry_cwd e of None \<Rightarrow> [] | Some c \<Rightarrow> c),
                           isPlaceholder = False\<rparr>)"
    have id0: "sess_id s0 = sid"
      using assms by (auto simp: s0_def keyed_def split: option.splits)
    obtain s where s: "parseEntry now e m = AList.update sid s m" "sess_id s = sess_id s0"
      using Some False
      by (auto simp: parseEntry_def Let_def s0_def [symmetric] split: option.splits)
    then show ?thesis using id0 by auto
  qed
qed

lemma parseEntry_keyed: "keyed m \<Longrightarrow> keyed (parseEntry now e m)"
  using parseEntry_shape [of m now e] by (auto simp: keyed_update)

lemma fold_parseEntry_keyed: "keyed m \<Longrightarrow> keyed (fold (parseEntry now) es m)"
  by (induction es arbitrary: m) (simp_all add: parseEntry_keyed)

lemma fold_parseEntry_keys:
  "fst ` set (fold (parseEntry now) es m)
     = fst ` set m \<union> {sid. sid \<noteq> [] \<and> Some sid \<in> entry_sessionId ` set es}"
  by (induction es arbitrary: m) (auto simp: parseEntry_keys)

lemma sortDesc_set [simp]: "set (sortDesc k xs) = set xs"
  by (simp add: sortDesc_def)

lemma sortDesc_distinct_map:
  "distinct (map f (sortDesc k xs)) = distinct (map f xs)"
  by (simp add: distinct_map sortDesc_def)

lemma sortDesc_sorted: "sorted_wrt (\<lambda>a b. k a \<ge> k b) (sortDesc k xs)"
proof -
  have "sorted (map (\<lambda>x. - k x) (sort_key (\<lambda>x. - k x) xs))"
    by (rule sorted_sort_key)
  then show ?thesis
    by (simp add: sortDesc_def sorted_map)
qed

lemma parse_ids:
  "distinct (map sess_id (parseJsonlSessions now f))"
  "sess_id ` set (parseJsonlSessions now f)
     = {sid. sid \<noteq> [] \<and> Some sid \<in> entry_sessionId ` set (entriesOf f)}"
proof -
  have k: "keyed (fold (parseEntry now) (entriesOf f) [])"
    by (rule fold_parseEntry_keyed) (simp add: keyed_def)
  show "distinct (map sess_id (parseJsonlSessions now f))"
    unfolding parseJsonlSessions_def sortDesc_distinct_map
    by (rule keyed_distinct_ids [OF k])
  have "set (map sess_id (parseJsonlSessions now f))
          = set (map sess_id (map snd (fold (parseEntry now) (entriesOf f) [])))"
    unfolding parseJsonlSessions_def set_map sortDesc_set ..
  also have "\<dots> = fst ` set (fold (parseEntry now) (entriesOf f) [])"
    by (simp only: keyed_ids [OF k] set_map)
  finally show "sess_id ` set (parseJsonlSessions now f)
     = {sid. sid \<noteq> [] \<and> Some sid \<in> entry_sessionId ` set (entriesOf f)}"
    by (simp add: fold_parseEntry_keys)
qed

lemma mergeSession_keyed: "keyed m \<Longrightarrow> keyed (mergeSession s m)"
  by (auto simp: keyed_def mergeSession_def map_of_eq_None_iff)

lemma fold_mergeSession_keyed: "keyed m \<Longrightarrow> keyed (fold mergeSession ss m)"
  by (induction ss arbitrary: m) (simp_all add: mergeSession_keyed)

lemma fold_mergeSession_keys:
  "fst ` set (fold mergeSession ss m) = fst ` set m \<union> sess_id ` set ss"
  by (induction ss arbitrary: m) (auto simp: mergeSession_def map_of_eq_None_iff image_iff)

lemma fold_mergeSession_mem:
  "(k, s) \<in> set (fold mergeSession ss m) \<Longrightarrow>
     (k, s) \<in> set m \<or> (k \<notin> fst ` set m \<and> s \<in> set ss \<and> k = sess_id s)"
proof (induction ss arbitrary: m)
  case Nil
  then show ?case by simp
next
  case (Cons a ss)
  from Cons.prems have "(k, s) \<in> set (fold mergeSession ss (mergeSession a m))" by simp
  from Cons.IH [OF this] show ?case
    by (auto simp: mergeSession_def map_of_eq_None_iff image_iff split: if_splits)
qed
lemma firstIn_here:
  "s \<in> set (parseJsonlSessions now f) \<Longrightarrow> firstIn now (f # fs) s"
  unfolding firstIn_def by (rule exI [of _ "[]"]) auto

lemma firstIn_later:
  assumes "firstIn now fs s" "sess_id s \<notin> sess_id ` set (parseJsonlSessions now f)"
  shows "firstIn now (f # fs) s"
proof -
  from assms(1) obtain pre g post where
    "fs = pre @ g # post" "s \<in> set (parseJsonlSessions now g)"
    "\<forall>h \<in> set pre. sess_id s \<notin> sess_id ` set (parseJsonlSessions now h)"
    unfolding firstIn_def by blast
  with assms(2) show ?thesis
    unfolding firstIn_def
    by (intro exI [of _ "f # pre"] exI [of _ g] exI [of _ post]) auto
qed

lemma scanFiles_keyed: "keyed m \<Longrightarrow> keyed (scanFiles now need n pc fs m)"
  by (induction fs arbitrary: m pc) (simp_all add: Let_def fold_mergeSession_keyed)

lemma scanFiles_mem:
  "(k, s) \<in> set (scanFiles now need n pc fs m) \<Longrightarrow>
     (k, s) \<in> set m \<or> (k \<notin> fst ` set m \<and> k = sess_id s \<and> firstIn now fs s)"
proof (induction fs arbitrary: m pc)
  case Nil
  then show ?case by simp
next
  case (Cons f fs)
  let ?m' = "fold mergeSession (parseJsonlSessions now f) m"
  from Cons.prems
  have "(k, s) \<in> set ?m' \<or> (k, s) \<in> set (scanFiles now need n (Suc pc) fs ?m')"
    by (simp add: Let_def split: if_splits)
  then have "(k, s) \<in> set ?m' \<or> (k \<notin> fst ` set ?m' \<and> k = sess_id s \<and> firstIn now fs s)"
    using Cons.IH by blast
  then show ?case
  proof
    assume "(k, s) \<in> set ?m'"
    from fold_mergeSession_mem [OF this] show ?thesis
      by (auto intro: firstIn_here)
  next
    assume a: "k \<notin> fst ` set ?m' \<and> k = sess_id s \<and> firstIn now fs s"
    then have "k \<notin> fst ` set m" "sess_id s \<notin> sess_id ` set (parseJsonlSessions now f)"
      by (auto simp: fold_mergeSession_keys)
    with a show ?thesis
      by (auto intro: firstIn_later)
  qed
qed

lemma page_subset: "x \<in> set (take l (drop off xs)) \<Longrightarrow> x \<in> set xs"
  by (meson in_set_dropD in_set_takeD)

lemma getSessions_distinct:
  "distinct (map sess_id (res_sessions (getSessions now fsys p limit offset)))"
proof (cases "fsys p")
  case None
  then show ?thesis by (simp add: getSessions_def noSessions_def)
next
  case (Some files)
  let ?scan = "sortDesc mtime (jsonlFilesOf files)"
  let ?all = "scanFiles now ((limit + offset) * 2) (length ?scan) 0 ?scan []"
  let ?sorted = "sortDesc lastActivity (map snd ?all)"
  have res: "res_sessions (getSessions now fsys p limit offset)
               = (if length (jsonlFilesOf files) = 0 then [] else take limit (drop offset ?sorted))"
    using Some by (simp add: getSessions_def noSessions_def Let_def)
  have k: "keyed ?all"
    by (rule scanFiles_keyed) (simp add: keyed_def)
  have d: "distinct (map sess_id ?sorted)"
    unfolding sortDesc_distinct_map by (rule keyed_distinct_ids [OF k])
  have "distinct (take limit (drop offset (map sess_id ?sorted)))"
    using d by (intro distinct_take distinct_drop)
  then show ?thesis
    by (simp add: res take_map drop_map)
qed

text \<open>
  C6. For every project, limit and offset, the page that \<^verbatim>\<open>getSessions\<close> returns has
  at most one session record per identity, and is sorted by \<^verbatim>\<open>lastActivity\<close>,
  descending. The log files are scanned most recently modified first; each file yields
  one record per identity that its entries name; and every record of the page is the
  record of the first scanned file that has a session of that identity, so among several
  files with entries of one session the first occurrence wins.
\<close>

theorem getSessions_unique_sorted:
  "distinct (map sess_id (res_sessions (getSessions now fsys p limit offset)))
   \<and> sorted_wrt (\<lambda>a b. lastActivity a \<ge> lastActivity b)
        (res_sessions (getSessions now fsys p limit offset))
   \<and> (\<forall>files. fsys p = Some files \<longrightarrow>
        sorted_wrt (\<lambda>a b. mtime a \<ge> mtime b) (sortDesc mtime (jsonlFilesOf files))
        \<and> (\<forall>f \<in> set files.
              distinct (map sess_id (parseJsonlSessions now f))
              \<and> sess_id ` set (parseJsonlSessions now f)
                  = {sid. sid \<noteq> [] \<and> Some sid \<in> entry_sessionId ` set (entriesOf f)})
        \<and> (\<forall>s \<in> set (res_sessions (getSessions now fsys p limit offset)).
              \<exists>pre f post.
                sortDesc mtime (jsonlFilesOf files) = pre @ f # post
                \<and> s \<in> set (parseJsonlSessions now f)
                \<and> (\<forall>g \<in> set pre. sess_id s \<notin> sess_id ` set (parseJsonlSessions now g))))"
proof (cases "fsys p")
  case None
  then show ?thesis by (simp add: getSessions_def noSessions_def)
next
  case (Some files)
  let ?scan = "sortDesc mtime (jsonlFilesOf files)"
  let ?all = "scanFiles now ((limit + offset) * 2) (length ?scan) 0 ?scan []"
  let ?sorted = "sortDesc lastActivity (map snd ?all)"
  have res: "res_sessions (getSessions now fsys p limit offset)
               = (if length (jsonlFilesOf files) = 0 then [] else take limit (drop offset ?sorted))"
    using Some by (simp add: getSessions_def noSessions_def Let_def)
  have 1: "distinct (map sess_id (res_sessions (getSessions now fsys p limit offset)))"
    by (rule getSessions_distinct)
  have "sorted_wrt (\<lambda>a b. lastActivity a \<ge> lastActivity b) (take limit (drop offset ?sorted))"
    by (intro sorted_wrt_take sorted_wrt_drop sortDesc_sorted)
  then have 2: "sorted_wrt (\<lambda>a b. lastActivity a \<ge> lastActivity b)
        (res_sessions (getSessions now fsys p limit offset))"
    by (simp add: res)
  have 3: "\<exists>pre f post.
                ?scan = pre @ f # post
                \<and> s \<in> set (parseJsonlSessions now f)
                \<and> (\<forall>g \<in> set pre. sess_id s \<notin> sess_id ` set (parseJsonlSessions now g))"
    if "s \<in> set (res_sessions (getSessions now fsys p limit offset))" for s
  proof -
    from that have "s \<in> set (take limit (drop offset ?sorted))"
      by (simp add: res split: if_splits)
    then have "s \<in> set ?sorted"
      by (rule page_subset)
    then obtain k where "(k, s) \<in> set ?all"
      by auto
    from scanFiles_mem [OF this] have "firstIn now ?scan s" by simp
    then show ?thesis by (simp add: firstIn_def)
  qed
  show ?thesis
    using 1 2 3 Some by (simp add: sortDesc_sorted parse_ids)
qed

lemma ex_parse:
  "map sess_id (parseJsonlSessions 0 fileB) = [''s1'']"
  "map lastActivity (parseJsonlSessions 0 fileB) = [10]"
  "map sess_id (parseJsonlSessions 0 fileA) = [''s1'', ''s2'']"
  by (simp_all add: parseJsonlSessions_def sortDesc_def entriesOf_def parseEntry_def fileA_def fileB_def
      lineOf_def brokenLine_def emptyLine_def entryOf_def isBlank_def isSpace_def startsWith_def)

theorem getSessions_witness:
  "demoFiles ''demo'' = Some [fileA, fileB]
   \<and> sortDesc mtime (jsonlFilesOf [fileA, fileB]) = [fileB, fileA]
   \<and> map sess_id (parseJsonlSessions 0 fileB) = [''s1'']
   \<and> map sess_id (parseJsonlSessions 0 fileA) = [''s1'', ''s2'']
   \<and> map sess_id (res_sessions (getSessions 0 demoFiles ''demo'' 5 0)) = [''s2'', ''s1'']
   \<and> map lastActivity (res_sessions (getSessions 0 demoFiles ''demo'' 5 0)) = [20, 10]"
  using getSessions_unique_sorted [of 0 demoFiles "''demo''" 5 0]
  by (simp add: getSessions_def sortDesc_def jsonlFilesOf_def endsWith_def suffix_def demoFiles_def
      mergeSession_def parseJsonlSessions_def entriesOf_def parseEntry_def fileA_def fileB_def
      lineOf_def brokenLine_def emptyLine_def entryOf_def isBlank_def isSpace_def startsWith_def)

subsection \<open>Messages of a session\<close>

lemma collect_lines:
  "fold (\<lambda>l ms. if isBlank l then ms
                else (case json l of
                        None \<Rightarrow> ms
                      | Some e \<Rightarrow> if entry_sessionId e = Some sid then ms @ [e] else ms)) ls ms
   = ms @ filter (\<lambda>e. entry_sessionId e = Some sid)
            (concat (map (\<lambda>l. if isBlank l then [] else (case json l of None \<Rightarrow> [] | Some e \<Rightarrow> [e])) ls))"
  by (induction ls arbitrary: ms) (auto split: option.splits)

lemma collectMessages_eq:
  "collectMessages sid f ms = ms @ filter (\<lambda>e. entry_sessionId e = Some sid) (entriesOf f)"
  by (simp add: collectMessages_def entriesOf_def collect_lines)

lemma fold_collectMessages:
  "fold (collectMessages sid) fs ms
     = ms @ filter (\<lambda>e. entry_sessionId e = Some sid) (concat (map entriesOf fs))"
  by (induction fs arbitrary: ms) (simp_all add: collectMessages_eq)

lemma getSessionMessages_eq:
  assumes "\<not> startsWith sid ''temp-''" "fsys p = Some files"
  shows "getSessionMessages fsys p sid
     = sort_key timeOf (filter (\<lambda>e. entry_sessionId e = Some sid)
                          (concat (map entriesOf (jsonlFilesOf files))))"
  using assms by (simp add: getSessionMessages_def fold_collectMessages Let_def)

text \<open>
  C9. \<^verbatim>\<open>getSessionMessages\<close> returns the empty list, and no error, for an identity that
  starts with \<^verbatim>\<open>temp-\<close> and for a project whose directory does not exist. For any
  other identity it returns exactly the entries of the project's log files (all of them,
  in listing order) that parse and whose \<^verbatim>\<open>sessionId\<close> is the identity, sorted by time
  stamp, ascending (a stable sort of the entries in file order).
\<close>

theorem getSessionMessages_spec:
  "(startsWith sid ''temp-'' \<longrightarrow> getSessionMessages fsys p sid = [])
   \<and> (fsys p = None \<longrightarrow> getSessionMessages fsys p sid = [])
   \<and> (\<not> startsWith sid ''temp-'' \<and> fsys p = Some files \<longrightarrow>
        mset (getSessionMessages fsys p sid)
          = mset (filter (\<lambda>e. entry_sessionId e = Some sid)
                    (concat (map entriesOf (jsonlFilesOf files))))
        \<and> sorted (map timeOf (getSessionMessages fsys p sid))
        \<and> getSessionMessages fsys p sid
          = sort_key timeOf (filter (\<lambda>e. entry_sessionId e = Some sid)
                               (concat (map entriesOf (jsonlFilesOf files)))))"
proof (intro conjI impI)
  show "getSessionMessages fsys p sid = []" if "startsWith sid ''temp-''"
    using that by (simp add: getSessionMessages_def)
  show "getSessionMessages fsys p sid = []" if "fsys p = None"
    using that by (simp add: getSessionMessages_def)
next
  assume a: "\<not> startsWith sid ''temp-'' \<and> fsys p = Some files"
  then have eq: "getSessionMessages fsys p sid
     = sort_key timeOf (filter (\<lambda>e. entry_sessionId e = Some sid)
                          (concat (map entriesOf (jsonlFilesOf files))))"
    by (simp add: getSessionMessages_eq)
  show "getSessionMessages fsys p sid
     = sort_key timeOf (filter (\<lambda>e. entry_sessionId e = Some sid)
                          (concat (map entriesOf (jsonlFilesOf files))))"
    by (rule eq)
  show "mset (getSessionMessages fsys p sid)
          = mset (filter (\<lambda>e. entry_sessionId e = Some sid)
                    (concat (map entriesOf (jsonlFilesOf files))))"
    unfolding eq by simp
  show "sorted (map timeOf (getSessionMessages fsys p sid))"
    unfolding eq by simp
qed

lemma blank_empty [simp]: "isBlank emptyLine"
  by (simp add: isBlank_def emptyLine_def)

lemma ex_entries: "entriesOf fileA = [entryOf ''s1'' 30 ''/demo'', entryOf ''s2'' 20 ''/demo'']"
  "entriesOf fileB = [entryOf ''s1'' 10 ''/demo'']"
  by (simp_all add: entriesOf_def fileA_def fileB_def lineOf_def brokenLine_def emptyLine_def isBlank_def isSpace_def)

theorem getSessionMessages_witness:
  "startsWith ''temp-123'' ''temp-'' \<and> getSessionMessages demoFiles ''demo'' ''temp-123'' = []
   \<and> demoFiles ''other'' = None \<and> getSessionMessages demoFiles ''other'' ''s1'' = []
   \<and> \<not> startsWith ''s1'' ''temp-'' \<and> demoFiles ''demo'' = Some [fileA, fileB]
   \<and> getSessionMessages demoFiles ''demo'' ''s1'' = [entryOf ''s1'' 10 ''/demo'', entryOf ''s1'' 30 ''/demo'']"
  using getSessionMessages_spec [of "''temp-123''" demoFiles "''demo''" "[fileA, fileB]"]
    getSessionMessages_spec [of "''s1''" demoFiles "''other''" "[]"]
    getSessionMessages_spec [of "''s1''" demoFiles "''demo''" "[fileA, fileB]"]
  by (simp add: startsWith_def demoFiles_def jsonlFilesOf_def endsWith_def ex_entries
      fileA_def [THEN arg_cong, of fileName] fileB_def [THEN arg_cong, of fileName]
      entryOf_def timeOf_def suffix_def)

subsection \<open>Deleting a session\<close>







subsection \<open>The project directory\<close>

lemma find_append':
  "find P (xs @ ys) = (case find P xs of None \<Rightarrow> find P ys | Some x \<Rightarrow> Some x)"
  by (induction xs) auto

lemma find_none: "(\<forall>x \<in> set xs. \<not> P x) \<Longrightarrow> find P xs = None"
  by (induction xs) auto

lemma find_some_ex: "\<exists>x \<in> set xs. P x \<Longrightarrow> \<exists>y. find P xs = Some y \<and> P y \<and> y \<in> set xs"
  by (induction xs) auto

lemma Max_snoc:
  "obs \<noteq> [] \<Longrightarrow> Max (snd ` set (obs @ [(c, t)])) = max t (Max (snd ` set obs))"
  by simp

lemma mostRecent_snoc:
  "mostRecent (obs @ [(c, t)])
     = (if t > (if obs = [] then 0 else max 0 (Max (snd ` set obs))) then Some c
        else mostRecent obs)"
proof (cases "obs = []")
  case True
  then show ?thesis by (simp add: mostRecent_def)
next
  case False
  define T where "T = Max (snd ` set obs)"
  have le: "\<forall>ob \<in> set obs. snd ob \<le> T"
    by (simp add: T_def)
  have att: "\<exists>ob \<in> set obs. snd ob = T"
  proof -
    have "T \<in> snd ` set obs"
      unfolding T_def using False by (intro Max_in) auto
    then show ?thesis by force
  qed
  have m: "Max (snd ` set (obs @ [(c, t)])) = max t T"
    unfolding T_def using False by (rule Max_snoc)
  have ne: "obs @ [(c, t)] \<noteq> []" by simp
  have lhs: "mostRecent (obs @ [(c, t)])
      = (if max t T \<le> 0 then None
         else map_option fst (find (\<lambda>ob. snd ob = max t T) (obs @ [(c, t)])))"
    unfolding mostRecent_def m using ne by (simp only: if_False)
  have rhs: "mostRecent obs
      = (if T \<le> 0 then None else map_option fst (find (\<lambda>ob. snd ob = T) obs))"
    unfolding mostRecent_def T_def using False by (simp only: if_False)
  have goal: "(if max t T \<le> 0 then None
         else map_option fst (find (\<lambda>ob. snd ob = max t T) (obs @ [(c, t)])))
      = (if t > max 0 T then Some c
         else (if T \<le> 0 then None else map_option fst (find (\<lambda>ob. snd ob = T) obs)))"
  proof (cases "t > max 0 T")
    case True
    then have "\<forall>ob \<in> set obs. snd ob \<noteq> t"
      using le by fastforce
    then have "find (\<lambda>ob. snd ob = t) obs = None"
      by (rule find_none)
    moreover from True have "max t T = t" "\<not> t \<le> 0" by auto
    ultimately show ?thesis using True by (simp add: find_append')
  next
    case nt: False
    show ?thesis
    proof (cases "T \<le> 0")
      case True
      with nt have "max t T \<le> 0" by auto
      with nt True show ?thesis by simp
    next
      case pos: False
      with nt have mx: "max t T = T" by (simp add: max_def)
      from find_some_ex [OF att] obtain y where "find (\<lambda>ob. snd ob = T) obs = Some y" by blast
      with nt pos show ?thesis
        unfolding mx by (simp add: find_append')
    qed
  qed
  show ?thesis
    unfolding lhs using False goal rhs by (simp only: if_False T_def)
qed

lemma scanEntry_cases:
  "cwdOf e = [] \<and> scanEntry e sc = sc
   \<or> (\<exists>c. c \<noteq> [] \<and> cwdOf e = [(c, timeOf e)] \<and>
        scanEntry e sc =
          \<lparr>cwdCounts = AList.update c ((case map_of (cwdCounts sc) c of None \<Rightarrow> 0 | Some k \<Rightarrow> k) + 1)
                          (cwdCounts sc),
           latestTimestamp = (if timeOf e > latestTimestamp sc then timeOf e else latestTimestamp sc),
           latestCwd = (if timeOf e > latestTimestamp sc then Some c else latestCwd sc)\<rparr>)"
  by (cases sc) (auto simp: cwdOf_def scanEntry_def Let_def split: option.splits)

lemma scanInv_step:
  assumes "scanInv obs sc" "c \<noteq> []"
  shows "scanInv (obs @ [(c, t)])
          \<lparr>cwdCounts = AList.update c ((case map_of (cwdCounts sc) c of None \<Rightarrow> 0 | Some k \<Rightarrow> k) + 1)
                          (cwdCounts sc),
           latestTimestamp = (if t > latestTimestamp sc then t else latestTimestamp sc),
           latestCwd = (if t > latestTimestamp sc then Some c else latestCwd sc)\<rparr>"
proof -
  from assms(1) have d: "distinct (map fst (cwdCounts sc))"
    and cnt: "\<And>k. map_of (cwdCounts sc) k
              = (if k \<in> fst ` set obs then Some (count_list (map fst obs) k) else None)"
    and lc: "latestCwd sc = mostRecent obs"
    and lt: "latestTimestamp sc = (if obs = [] then 0 else max 0 (Max (snd ` set obs)))"
    and ne: "[] \<notin> fst ` set obs"
    by (simp_all add: scanInv_def)
  have 1: "distinct (map fst (AList.update c ((case map_of (cwdCounts sc) c of None \<Rightarrow> 0 | Some k \<Rightarrow> k) + 1)
                          (cwdCounts sc)))"
    using d by (rule distinct_update)
  have 2: "map_of (AList.update c ((case map_of (cwdCounts sc) c of None \<Rightarrow> 0 | Some k \<Rightarrow> k) + 1)
                          (cwdCounts sc)) k
        = (if k \<in> fst ` set (obs @ [(c, t)]) then Some (count_list (map fst (obs @ [(c, t)])) k) else None)"
    for k
    by (auto simp: update_conv' cnt)
  have 3: "(if t > latestTimestamp sc then Some c else latestCwd sc) = mostRecent (obs @ [(c, t)])"
    by (simp add: mostRecent_snoc lt lc)
  have 4: "(if t > latestTimestamp sc then t else latestTimestamp sc)
        = max 0 (Max (snd ` set (obs @ [(c, t)])))"
  proof (cases "obs = []")
    case True
    then show ?thesis by (simp add: lt max_def)
  next
    case False
    define T where "T = Max (snd ` set obs)"
    have "(if t > max 0 T then t else max 0 T) = max 0 (max t T)"
      by (simp add: max_def)
    then show ?thesis
      unfolding Max_snoc [OF False] lt T_def using False by (simp only: if_False)
  qed
  show ?thesis
    unfolding scanInv_def using 1 2 3 4 ne assms(2) by simp
qed

lemma scanInv_fold:
  "scanInv (concat (map cwdOf es))
     (fold scanEntry es \<lparr>cwdCounts = [], latestTimestamp = 0, latestCwd = None\<rparr>)"
proof (induction es rule: rev_induct)
  case Nil
  show ?case by (simp add: scanInv_def mostRecent_def)
next
  case (snoc e es)
  let ?sc = "fold scanEntry es \<lparr>cwdCounts = [], latestTimestamp = 0, latestCwd = None\<rparr>"
  from scanEntry_cases [of e ?sc] show ?case
  proof
    assume "cwdOf e = [] \<and> scanEntry e ?sc = ?sc"
    with snoc show ?thesis by simp
  next
    assume "\<exists>c. c \<noteq> [] \<and> cwdOf e = [(c, timeOf e)] \<and>
        scanEntry e ?sc =
          \<lparr>cwdCounts = AList.update c ((case map_of (cwdCounts ?sc) c of None \<Rightarrow> 0 | Some k \<Rightarrow> k) + 1)
                          (cwdCounts ?sc),
           latestTimestamp = (if timeOf e > latestTimestamp ?sc then timeOf e else latestTimestamp ?sc),
           latestCwd = (if timeOf e > latestTimestamp ?sc then Some c else latestCwd ?sc)\<rparr>"
    then obtain c where c: "c \<noteq> []" "cwdOf e = [(c, timeOf e)]"
      and eq: "scanEntry e ?sc =
          \<lparr>cwdCounts = AList.update c ((case map_of (cwdCounts ?sc) c of None \<Rightarrow> 0 | Some k \<Rightarrow> k) + 1)
                          (cwdCounts ?sc),
           latestTimestamp = (if timeOf e > latestTimestamp ?sc then timeOf e else latestTimestamp ?sc),
           latestCwd = (if timeOf e > latestTimestamp ?sc then Some c else latestCwd ?sc)\<rparr>"
      by blast
    from scanInv_step [OF snoc c(1), of "timeOf e"] show ?thesis
      by (simp add: c(2) eq)
  qed
qed

lemma fold_fold_concat: "fold (\<lambda>f sc. fold g (h f) sc) fs sc = fold g (concat (map h fs)) sc"
  by (induction fs arbitrary: sc) simp_all

lemma scanCwds_inv: "scanInv (observedCwds jsonlFiles) (scanCwds jsonlFiles)"
  unfolding observedCwds_def scanCwds_def fold_fold_concat by (rule scanInv_fold)

lemma keys_of_counts:
  assumes "scanInv obs sc"
  shows "fst ` set (cwdCounts sc) = fst ` set obs"
proof -
  have "c \<in> fst ` set (cwdCounts sc) \<longleftrightarrow> c \<in> fst ` set obs" for c
  proof -
    have "c \<in> fst ` set (cwdCounts sc) \<longleftrightarrow> map_of (cwdCounts sc) c \<noteq> None"
      by (simp add: map_of_eq_None_iff)
    also have "\<dots> \<longleftrightarrow> c \<in> fst ` set obs"
      using assms by (simp add: scanInv_def)
    finally show ?thesis .
  qed
  then show ?thesis by blast
qed

lemma length_counts:
  assumes "scanInv obs sc"
  shows "length (cwdCounts sc) = card (fst ` set obs)"
proof -
  have "distinct (map fst (cwdCounts sc))"
    using assms by (simp add: scanInv_def)
  then have "card (set (map fst (cwdCounts sc))) = length (map fst (cwdCounts sc))"
    by (rule distinct_card)
  then show ?thesis
    using keys_of_counts [OF assms] by simp
qed

lemma values_of_counts:
  assumes "scanInv obs sc"
  shows "snd ` set (cwdCounts sc) = count_list (map fst obs) ` (fst ` set obs)"
proof -
  have d: "distinct (map fst (cwdCounts sc))"
    and cnt: "\<And>k. map_of (cwdCounts sc) k
              = (if k \<in> fst ` set obs then Some (count_list (map fst obs) k) else None)"
    using assms by (simp_all add: scanInv_def)
  have mem: "(c, n) \<in> set (cwdCounts sc) \<longleftrightarrow> c \<in> fst ` set obs \<and> n = count_list (map fst obs) c" for c n
  proof -
    have "(c, n) \<in> set (cwdCounts sc) \<longleftrightarrow> map_of (cwdCounts sc) c = Some n"
      using d by simp
    then show ?thesis by (auto simp: cnt)
  qed
  show ?thesis
  proof (intro set_eqI iffI)
    fix n assume "n \<in> snd ` set (cwdCounts sc)"
    then obtain c where "(c, n) \<in> set (cwdCounts sc)" by force
    then show "n \<in> count_list (map fst obs) ` (fst ` set obs)"
      using mem by blast
  next
    fix n assume "n \<in> count_list (map fst obs) ` (fst ` set obs)"
    then obtain c where "c \<in> fst ` set obs" "n = count_list (map fst obs) c" by blast
    then have "(c, n) \<in> set (cwdCounts sc)" using mem by blast
    then show "n \<in> snd ` set (cwdCounts sc)" by force
  qed
qed

lemma fold_max_Max: "fold max xs (a::nat) = Max (insert a (set xs))"
  using Max.set_eq_fold [of a xs] by simp

lemma maxCount_eq:
  assumes "scanInv obs sc" "obs \<noteq> []"
  shows "maxCountOf (cwdCounts sc) = Max (count_list (map fst obs) ` (fst ` set obs))"
proof -
  let ?V = "count_list (map fst obs) ` (fst ` set obs)"
  have fin: "finite ?V" by simp
  have ne: "?V \<noteq> {}" using assms(2) by simp
  have "maxCountOf (cwdCounts sc) = Max (insert 0 ?V)"
    by (simp add: maxCountOf_def fold_max_Max values_of_counts [OF assms(1)])
  also have "\<dots> = max 0 (Max ?V)"
    using fin ne by (rule Max_insert)
  finally show ?thesis by simp
qed

lemma find_max:
  assumes "scanInv obs sc" "obs \<noteq> []"
  shows "\<exists>c. find (\<lambda>kv. snd kv = maxCountOf (cwdCounts sc)) (cwdCounts sc)
              = Some (c, maxCountOf (cwdCounts sc))
            \<and> c \<in> fst ` set obs \<and> count_list (map fst obs) c = maxCountOf (cwdCounts sc)"
proof -
  let ?V = "count_list (map fst obs) ` (fst ` set obs)"
  let ?M = "maxCountOf (cwdCounts sc)"
  have "Max ?V \<in> ?V"
    using assms(2) by (intro Max_in) auto
  then have "?M \<in> snd ` set (cwdCounts sc)"
    by (simp only: maxCount_eq [OF assms] values_of_counts [OF assms(1)])
  then have "\<exists>kv \<in> set (cwdCounts sc). snd kv = ?M" by force
  from find_some_ex [OF this] obtain kv where
    kv: "find (\<lambda>kv. snd kv = ?M) (cwdCounts sc) = Some kv" "snd kv = ?M" "kv \<in> set (cwdCounts sc)"
    by blast
  have d: "distinct (map fst (cwdCounts sc))"
    and cnt: "\<And>k. map_of (cwdCounts sc) k
              = (if k \<in> fst ` set obs then Some (count_list (map fst obs) k) else None)"
    using assms(1) by (simp_all add: scanInv_def)
  from kv(3) d have "map_of (cwdCounts sc) (fst kv) = Some (snd kv)" by simp
  then have "fst kv \<in> fst ` set obs \<and> count_list (map fst obs) (fst kv) = snd kv"
    by (simp add: cnt split: if_splits)
  with kv(1,2) show ?thesis
    by (intro exI [of _ "fst kv"]) (cases kv, simp)
qed

lemma mostRecent_mem: "mostRecent obs = Some l \<Longrightarrow> l \<in> fst ` set obs"
proof -
  assume a: "mostRecent obs = Some l"
  then obtain ob where "find (\<lambda>ob. snd ob = Max (snd ` set obs)) obs = Some ob" "fst ob = l"
    by (auto simp: mostRecent_def split: if_splits)
  then have "ob \<in> set obs"
    by (auto simp: find_Some_iff in_set_conv_nth)
  with \<open>fst ob = l\<close> show ?thesis by force
qed

lemma chooseCwd_spec:
  assumes inv: "scanInv obs sc" and many: "1 < card (fst ` set obs)"
  shows "(\<forall>l. mostRecent obs = Some l
              \<and> Max (count_list (map fst obs) ` (fst ` set obs)) \<le> 4 * count_list (map fst obs) l
            \<longrightarrow> chooseCwd projName sc = l)
       \<and> (mostRecent obs = None
            \<or> (\<exists>l. mostRecent obs = Some l
                 \<and> 4 * count_list (map fst obs) l < Max (count_list (map fst obs) ` (fst ` set obs)))
            \<longrightarrow> chooseCwd projName sc \<in> fst ` set obs
                \<and> count_list (map fst obs) (chooseCwd projName sc)
                     = Max (count_list (map fst obs) ` (fst ` set obs)))"
proof -
  have ne: "obs \<noteq> []"
  proof
    assume e: "obs = []"
    from many show False unfolding e by simp
  qed
  have "1 < length (cwdCounts sc)"
    using many by (simp only: length_counts [OF inv])
  then have len: "\<not> length (cwdCounts sc) = 0" "\<not> length (cwdCounts sc) = 1"
    by linarith+
  have cnt: "\<And>k. map_of (cwdCounts sc) k
              = (if k \<in> fst ` set obs then Some (count_list (map fst obs) k) else None)"
    and lc: "latestCwd sc = mostRecent obs"
    and nonempty: "[] \<notin> fst ` set obs"
    using inv by (simp_all add: scanInv_def)
  define M where "M = maxCountOf (cwdCounts sc)"
  have M: "Max (count_list (map fst obs) ` (fst ` set obs)) = M"
    by (simp add: M_def maxCount_eq [OF inv ne])
  from find_max [OF inv ne] obtain c where
    c: "find (\<lambda>kv. snd kv = M) (cwdCounts sc) = Some (c, M)" "c \<in> fst ` set obs"
       "count_list (map fst obs) c = M"
    unfolding M_def by blast
  have cne: "c \<noteq> []" using c(2) nonempty by metis
  have Mpos: "0 < M"
  proof -
    have "c \<in> set (map fst obs)" using c(2) by simp
    then have "count_list (map fst obs) c \<noteq> 0" by (simp add: count_list_0_iff)
    with c(3) show ?thesis by simp
  qed
  have recent: "chooseCwd projName sc = l"
    if "mostRecent obs = Some l" "M \<le> 4 * count_list (map fst obs) l" for l
  proof -
    have lm: "l \<in> fst ` set obs" using that(1) by (rule mostRecent_mem)
    then have "l \<noteq> []" using nonempty by metis
    then show ?thesis
      using that lm len
      by (simp add: chooseCwd_def Let_def lc cnt M_def [symmetric] truthy_def)
  qed
  have frequent: "chooseCwd projName sc = c"
    if "mostRecent obs = None
          \<or> (\<exists>l. mostRecent obs = Some l \<and> 4 * count_list (map fst obs) l < M)"
    using that
  proof
    assume "mostRecent obs = None"
    then show ?thesis
      using len Mpos c(1) cne
      by (simp add: chooseCwd_def Let_def lc M_def [symmetric] truthy_def)
  next
    assume "\<exists>l. mostRecent obs = Some l \<and> 4 * count_list (map fst obs) l < M"
    then obtain l where l: "mostRecent obs = Some l" "4 * count_list (map fst obs) l < M"
      by blast
    have lm: "l \<in> fst ` set obs" using l(1) by (rule mostRecent_mem)
    show ?thesis
      using len l lm c(1) cne
      by (simp add: chooseCwd_def Let_def lc cnt M_def [symmetric] truthy_def)
  qed
  show ?thesis
    unfolding M using recent frequent c(2,3) by auto
qed
lemma ex_obs:
  "observedCwds [fileC] = [(''/a'', 1), (''/a'', 2), (''/a'', 3), (''/a'', 4), (''/b'', 5)]"
  "observedCwds [fileD] = [(''/a'', 1), (''/a'', 2), (''/a'', 3), (''/a'', 4), (''/a'', 5), (''/b'', 6)]"
  by (simp_all add: observedCwds_def entriesOf_def cwdOf_def timeOf_def fileC_def fileD_def cwdLine_def
      isBlank_def isSpace_def)

lemma ex_jsonl: "jsonlFilesOf [fileC] = [fileC]" "jsonlFilesOf [fileD] = [fileD]"
  by (simp_all add: jsonlFilesOf_def endsWith_def suffix_def fileC_def fileD_def)

lemma ex_recent:
  "mostRecent [(''/a'', 1), (''/a'', 2), (''/a'', 3), (''/a'', 4), (''/b'', 5)] = Some ''/b''"
  "mostRecent [(''/a'', 1), (''/a'', 2), (''/a'', 3), (''/a'', 4), (''/a'', 5), (''/b'', 6)] = Some ''/b''"
  by (simp_all add: mostRecent_def)

lemma ex_scan:
  "scanCwds [fileC] = \<lparr>cwdCounts = [(''/a'', 4), (''/b'', 1)], latestTimestamp = 5, latestCwd = Some ''/b''\<rparr>"
  "scanCwds [fileD] = \<lparr>cwdCounts = [(''/a'', 5), (''/b'', 1)], latestTimestamp = 6, latestCwd = Some ''/b''\<rparr>"
  by (simp_all add: scanCwds_def scanEntry_def timeOf_def entriesOf_def fileC_def fileD_def cwdLine_def
      isBlank_def isSpace_def Let_def)

lemma ex_fs: "cwdFiles ''c'' = Some [fileC]" "cwdFiles ''d'' = Some [fileD]"
  by (simp_all add: cwdFiles_def)

lemma ex_extract:
  "fst (extractProjectDirectory [] cwdFiles Map.empty ''c'') = ''/b''"
  "fst (extractProjectDirectory [] cwdFiles Map.empty ''d'') = ''/a''"
  by (simp_all add: extractProjectDirectory_def cwdFiles_def truthy_def ex_jsonl ex_scan chooseCwd_def
      maxCountOf_def Let_def)

text \<open>
  C7, as it is stated, fails: of five observed values the most recent one, \<^verbatim>\<open>/b\<close>,
  occurs once, which is less than 25% of the occurrences, and \<^verbatim>\<open>/a\<close> occurs four
  times; the most recent one is selected all the same, not the most frequent one.
\<close>

theorem quarter_of_occurrences_counterexample:
  "map fst (observedCwds (jsonlFilesOf [fileC])) = [''/a'', ''/a'', ''/a'', ''/a'', ''/b'']
   \<and> mostRecent (observedCwds (jsonlFilesOf [fileC])) = Some ''/b''
   \<and> 4 * count_list (map fst (observedCwds (jsonlFilesOf [fileC]))) ''/b''
       < length (map fst (observedCwds (jsonlFilesOf [fileC])))
   \<and> fst (extractProjectDirectory [] cwdFiles Map.empty ''c'') = ''/b''"
  by (simp add: ex_jsonl ex_obs ex_recent ex_extract)

text \<open>
  C7, amended. On a cache miss, with no original path configured, when the log entries
  of the project have more than one distinct \<^verbatim>\<open>cwd\<close>: the most recently observed one
  is selected whenever its occurrences are at least 25% of those of the most frequent
  value (\<^verbatim>\<open>mostRecentCount >= maxCount * 0.25\<close>); otherwise, and when no entry has a
  positive time, a most frequently occurring value is selected.
\<close>

theorem extractProjectDirectory_several_cwds:
  assumes "cache projName = None"
    and "\<not> truthy (case map_of cfg projName of None \<Rightarrow> None | Some pc \<Rightarrow> originalPath pc)"
    and "fsys projName = Some files"
    and "1 < card (fst ` set (observedCwds (jsonlFilesOf files)))"
  shows "(\<forall>l. mostRecent (observedCwds (jsonlFilesOf files)) = Some l
              \<and> Max (count_list (map fst (observedCwds (jsonlFilesOf files)))
                       ` (fst ` set (observedCwds (jsonlFilesOf files))))
                  \<le> 4 * count_list (map fst (observedCwds (jsonlFilesOf files))) l
            \<longrightarrow> fst (extractProjectDirectory cfg fsys cache projName) = l)
       \<and> (mostRecent (observedCwds (jsonlFilesOf files)) = None
            \<or> (\<exists>l. mostRecent (observedCwds (jsonlFilesOf files)) = Some l
                 \<and> 4 * count_list (map fst (observedCwds (jsonlFilesOf files))) l
                     < Max (count_list (map fst (observedCwds (jsonlFilesOf files)))
                              ` (fst ` set (observedCwds (jsonlFilesOf files)))))
            \<longrightarrow> fst (extractProjectDirectory cfg fsys cache projName)
                  \<in> fst ` set (observedCwds (jsonlFilesOf files))
                \<and> count_list (map fst (observedCwds (jsonlFilesOf files)))
                     (fst (extractProjectDirectory cfg fsys cache projName))
                     = Max (count_list (map fst (observedCwds (jsonlFilesOf files)))
                              ` (fst ` set (observedCwds (jsonlFilesOf files)))))"
proof -
  have "observedCwds (jsonlFilesOf files) \<noteq> []"
  proof
    assume e: "observedCwds (jsonlFilesOf files) = []"
    from assms(4) show False unfolding e by simp
  qed
  then have "jsonlFilesOf files \<noteq> []"
    by (auto simp: observedCwds_def)
  then have eq: "fst (extractProjectDirectory cfg fsys cache projName)
      = chooseCwd projName (scanCwds (jsonlFilesOf files))"
    using assms(1-3) by (simp add: extractProjectDirectory_def Let_def)
  show ?thesis
    unfolding eq by (rule chooseCwd_spec [OF scanCwds_inv assms(4)])
qed

theorem extractProjectDirectory_several_cwds_witness:
  "cwdFiles ''c'' = Some [fileC] \<and> cwdFiles ''d'' = Some [fileD]
   \<and> mostRecent (observedCwds (jsonlFilesOf [fileC])) = Some ''/b''
   \<and> mostRecent (observedCwds (jsonlFilesOf [fileD])) = Some ''/b''
   \<and> count_list (map fst (observedCwds (jsonlFilesOf [fileC]))) ''/a'' = 4
   \<and> count_list (map fst (observedCwds (jsonlFilesOf [fileD]))) ''/a'' = 5
   \<and> fst (extractProjectDirectory [] cwdFiles Map.empty ''c'') = ''/b''
   \<and> fst (extractProjectDirectory [] cwdFiles Map.empty ''d'') = ''/a''"
  using extractProjectDirectory_several_cwds [of Map.empty "''c''" "[]" cwdFiles "[fileC]"]
    extractProjectDirectory_several_cwds [of Map.empty "''d''" "[]" cwdFiles "[fileD]"]
  by (simp add: ex_jsonl ex_obs ex_recent ex_extract ex_fs truthy_def)

subsection \<open>Project names\<close>















subsection \<open>Listing projects\<close>

lemma find_append2:
  "find P (xs @ ys) = (case find P xs of None \<Rightarrow> find P ys | Some x \<Rightarrow> Some x)"
  by (induction xs) auto

lemma find_manual_none:
  "find (\<lambda>c. fullPath c = x \<and> isManuallyAdded c) cs = None \<Longrightarrow>
   find (\<lambda>c. fullPath c = x) cs = Some w \<Longrightarrow> \<not> isManuallyAdded w"
  by (induction cs) (auto split: if_splits)

lemma find_manual_some:
  "find (\<lambda>c. fullPath c = x \<and> isManuallyAdded c) cs = Some w \<Longrightarrow> isManuallyAdded w \<and> fullPath w = x"
  by (induction cs) (auto split: if_splits)

lemma winner_snoc:
  "winner (cs @ [c]) x =
     (if fullPath c \<noteq> x then winner cs x
      else (case winner cs x of
              None \<Rightarrow> Some c
            | Some w \<Rightarrow> if isManuallyAdded c \<and> \<not> isManuallyAdded w then Some c else Some w))"
proof (cases "find (\<lambda>c. fullPath c = x \<and> isManuallyAdded c) cs")
  case (Some m)
  then show ?thesis
    using find_manual_some [OF Some] by (simp add: winner_def find_append2)
next
  case None
  show ?thesis
  proof (cases "find (\<lambda>c. fullPath c = x) cs")
    case n: None
    with None show ?thesis by (simp add: winner_def find_append2)
  next
    case (Some w)
    with None find_manual_none [OF None Some] show ?thesis
      by (simp add: winner_def find_append2)
  qed
qed

lemma winner_path: "winner cs x = Some w \<Longrightarrow> fullPath w = x \<and> w \<in> set cs"
  by (auto simp: winner_def find_Some_iff split: option.splits)

lemma removeFirstNamed_subset: "set (removeFirstNamed n ps) \<subseteq> set ps"
  by (induction ps) auto

lemma removeFirstNamed_distinct:
  "distinct (map f ps) \<Longrightarrow> distinct (map f (removeFirstNamed n ps))"
proof (induction ps)
  case Nil
  show ?case by simp
next
  case (Cons a ps)
  have "f a \<notin> f ` set (removeFirstNamed n ps)"
    using Cons.prems removeFirstNamed_subset [of n ps] by auto
  with Cons show ?case by simp
qed

lemma removeFirstNamed_set:
  "distinct (map name ps) \<Longrightarrow> set (removeFirstNamed n ps) = {p \<in> set ps. name p \<noteq> n}"
  by (induction ps) (auto simp: image_iff)

text \<open>What a step of the duplicate detection does, branch by branch.\<close>

lemma addProject_new:
  assumes "duplicateDetection st (fullPath proj) = None"
  shows "gp_projects (addProject getS proj st)
           = gp_projects st @
               [proj\<lparr>sessions := res_sessions (getS (name proj)),
                     sessionMeta := Some \<lparr>hasMore = Some False, total = res_total (getS (name proj))\<rparr>\<rparr>]"
    and "duplicateDetection (addProject getS proj st)
           = (duplicateDetection st)(fullPath proj \<mapsto>
                proj\<lparr>sessions := res_sessions (getS (name proj)),
                     sessionMeta := Some \<lparr>hasMore = Some False, total = res_total (getS (name proj))\<rparr>\<rparr>)"
  using assms by (simp_all add: addProject_def Let_def)

lemma addProject_replace:
  assumes "duplicateDetection st (fullPath proj) = Some existing"
    "isManuallyAdded proj" "\<not> isManuallyAdded existing"
  shows "gp_projects (addProject getS proj st)
           = removeFirstNamed (name existing) (gp_projects st) @
               [proj\<lparr>sessions := uniqueSessions (res_sessions (getS (name existing))
                                                   @ res_sessions (getS (name proj))),
                     sessionMeta := mergedMeta (uniqueSessions (res_sessions (getS (name existing))
                                                   @ res_sessions (getS (name proj))))\<rparr>]"
    and "duplicateDetection (addProject getS proj st)
           = (duplicateDetection st)(fullPath proj \<mapsto>
                proj\<lparr>sessions := uniqueSessions (res_sessions (getS (name existing))
                                                   @ res_sessions (getS (name proj))),
                     sessionMeta := mergedMeta (uniqueSessions (res_sessions (getS (name existing))
                                                   @ res_sessions (getS (name proj))))\<rparr>)"
  using assms by (simp_all add: addProject_def Let_def)

lemma addProject_skip:
  assumes "duplicateDetection st (fullPath proj) = Some existing"
    "\<not> isManuallyAdded proj" "isManuallyAdded existing"
  shows "addProject getS proj st = st"
  using assms by (simp add: addProject_def Let_def)

lemma addProject_merge:
  assumes "duplicateDetection st (fullPath proj) = Some existing"
    "isManuallyAdded proj = isManuallyAdded existing"
  shows "gp_projects (addProject getS proj st)
           = map (\<lambda>p. if name p = name existing
                        then p\<lparr>sessions := uniqueSessions (sessions existing @ res_sessions (getS (name proj))),
                               sessionMeta := mergedMeta (uniqueSessions (sessions existing
                                                            @ res_sessions (getS (name proj))))\<rparr>
                        else p) (gp_projects st)"
    and "duplicateDetection (addProject getS proj st)
           = (duplicateDetection st)(fullPath proj \<mapsto>
                existing\<lparr>sessions := uniqueSessions (sessions existing @ res_sessions (getS (name proj))),
                         sessionMeta := mergedMeta (uniqueSessions (sessions existing
                                                      @ res_sessions (getS (name proj))))\<rparr>)"
  using assms by (auto simp add: addProject_def Let_def)

lemma addProject_other_fields:
  "existingProjects (addProject getS proj st) = existingProjects st"
  "gp_cache (addProject getS proj st) = gp_cache st"
  by (simp_all add: addProject_def Let_def split: option.splits)

lemma gpInv_new:
  assumes inv: "gpInv st" and fresh: "name proj \<notin> name ` set (gp_projects st)"
    and none: "duplicateDetection st (fullPath proj) = None"
    and ps: "gp_projects st' = gp_projects st @ [proj\<lparr>sessions := ss, sessionMeta := m\<rparr>]"
    and dd: "duplicateDetection st'
               = (duplicateDetection st)(fullPath proj \<mapsto> proj\<lparr>sessions := ss, sessionMeta := m\<rparr>)"
  shows "gpInv st'"
proof -
  from inv have a: "distinct (map fullPath (gp_projects st))"
    and b: "distinct (map name (gp_projects st))"
    and c: "\<And>x q. duplicateDetection st x = Some q \<Longrightarrow> q \<in> set (gp_projects st) \<and> fullPath q = x"
    and d: "\<And>p. p \<in> set (gp_projects st) \<Longrightarrow> duplicateDetection st (fullPath p) = Some p"
    by (auto simp: gpInv_def)
  have nopath: "fullPath proj \<notin> fullPath ` set (gp_projects st)"
  proof
    assume "fullPath proj \<in> fullPath ` set (gp_projects st)"
    then obtain p where "p \<in> set (gp_projects st)" "fullPath p = fullPath proj" by auto
    with d [of p] none show False by simp
  qed
  show ?thesis
    unfolding gpInv_def ps dd
  proof (intro conjI allI impI ballI)
    show "distinct (map fullPath (gp_projects st @ [proj\<lparr>sessions := ss, sessionMeta := m\<rparr>]))"
      using a nopath by simp
    show "distinct (map name (gp_projects st @ [proj\<lparr>sessions := ss, sessionMeta := m\<rparr>]))"
      using b fresh by simp
  next
    fix x q
    assume "((duplicateDetection st)(fullPath proj \<mapsto> proj\<lparr>sessions := ss, sessionMeta := m\<rparr>)) x = Some q"
    then show "q \<in> set (gp_projects st @ [proj\<lparr>sessions := ss, sessionMeta := m\<rparr>])"
      and "fullPath q = x"
      using c [of x q] by (auto split: if_splits)
  next
    fix p
    assume "p \<in> set (gp_projects st @ [proj\<lparr>sessions := ss, sessionMeta := m\<rparr>])"
    then consider "p \<in> set (gp_projects st)" | "p = proj\<lparr>sessions := ss, sessionMeta := m\<rparr>"
      by auto
    then show "((duplicateDetection st)(fullPath proj \<mapsto> proj\<lparr>sessions := ss, sessionMeta := m\<rparr>))
                 (fullPath p) = Some p"
    proof cases
      case 1
      have "fullPath p \<noteq> fullPath proj"
      proof
        assume "fullPath p = fullPath proj"
        with 1 have "fullPath proj \<in> fullPath ` set (gp_projects st)" by (metis imageI)
        with nopath show False by simp
      qed
      with d [OF 1] show ?thesis by simp
    next
      case 2
      then show ?thesis by simp
    qed
  qed
qed

lemma gpInv_replace:
  assumes inv: "gpInv st" and fresh: "name proj \<notin> name ` set (gp_projects st)"
    and some: "duplicateDetection st (fullPath proj) = Some existing"
    and ps: "gp_projects st' = removeFirstNamed (name existing) (gp_projects st)
                                 @ [proj\<lparr>sessions := ss, sessionMeta := m\<rparr>]"
    and dd: "duplicateDetection st'
               = (duplicateDetection st)(fullPath proj \<mapsto> proj\<lparr>sessions := ss, sessionMeta := m\<rparr>)"
  shows "gpInv st'"
proof -
  let ?rest = "removeFirstNamed (name existing) (gp_projects st)"
  let ?new = "proj\<lparr>sessions := ss, sessionMeta := m\<rparr>"
  from inv have a: "distinct (map fullPath (gp_projects st))"
    and b: "distinct (map name (gp_projects st))"
    and c: "\<And>x q. duplicateDetection st x = Some q \<Longrightarrow> q \<in> set (gp_projects st) \<and> fullPath q = x"
    and d: "\<And>p. p \<in> set (gp_projects st) \<Longrightarrow> duplicateDetection st (fullPath p) = Some p"
    by (auto simp: gpInv_def)
  have rest: "set ?rest = {p \<in> set (gp_projects st). name p \<noteq> name existing}"
    using b by (rule removeFirstNamed_set)
  have restpath: "fullPath p \<noteq> fullPath proj" if "p \<in> set ?rest" for p
  proof
    assume e: "fullPath p = fullPath proj"
    from that rest have p: "p \<in> set (gp_projects st)" "name p \<noteq> name existing" by auto
    from d [OF p(1)] e some have "p = existing" by simp
    with p(2) show False by simp
  qed
  show ?thesis
    unfolding gpInv_def ps dd
  proof (intro conjI allI impI ballI)
    have "fullPath proj \<notin> fullPath ` set ?rest"
      using restpath by force
    then show "distinct (map fullPath (?rest @ [?new]))"
      using removeFirstNamed_distinct [OF a, of "name existing"] by simp
    have "name proj \<notin> name ` set ?rest"
      using fresh removeFirstNamed_subset [of "name existing" "gp_projects st"] by auto
    then show "distinct (map name (?rest @ [?new]))"
      using removeFirstNamed_distinct [OF b, of "name existing"] by simp
  next
    fix x q
    assume h: "((duplicateDetection st)(fullPath proj \<mapsto> ?new)) x = Some q"
    show "fullPath q = x"
      using h c [of x q] by (auto split: if_splits)
    show "q \<in> set (?rest @ [?new])"
    proof (cases "x = fullPath proj")
      case True
      with h show ?thesis by simp
    next
      case False
      with h have q: "duplicateDetection st x = Some q" by simp
      from c [OF q] have qs: "q \<in> set (gp_projects st)" "fullPath q = x" by auto
      from c [OF some] have es: "existing \<in> set (gp_projects st)" "fullPath existing = fullPath proj"
        by auto
      have "name q \<noteq> name existing"
      proof
        assume "name q = name existing"
        with b qs(1) es(1) have "q = existing"
          by (auto simp: distinct_map inj_on_def)
        with qs(2) es(2) False show False by simp
      qed
      with qs(1) rest show ?thesis by simp
    qed
  next
    fix p
    assume "p \<in> set (?rest @ [?new])"
    then consider "p \<in> set ?rest" | "p = ?new" by auto
    then show "((duplicateDetection st)(fullPath proj \<mapsto> ?new)) (fullPath p) = Some p"
    proof cases
      case 1
      then have "p \<in> set (gp_projects st)" using rest by simp
      with restpath [OF 1] d [of p] show ?thesis by simp
    next
      case 2
      then show ?thesis by simp
    qed
  qed
qed

lemma map_update_keeps:
  "map name (map (\<lambda>p. if name p = n then p\<lparr>sessions := ss, sessionMeta := m\<rparr> else p) ps)
     = map name ps"
  "map fullPath (map (\<lambda>p. if name p = n then p\<lparr>sessions := ss, sessionMeta := m\<rparr> else p) ps)
     = map fullPath ps"
  by (induction ps) auto

lemma gpInv_merge:
  assumes inv: "gpInv st"
    and some: "duplicateDetection st (fullPath proj) = Some existing"
    and ps: "gp_projects st' = map (\<lambda>p. if name p = name existing
                              then p\<lparr>sessions := ss, sessionMeta := m\<rparr> else p) (gp_projects st)"
    and dd: "duplicateDetection st'
               = (duplicateDetection st)(fullPath proj \<mapsto> existing\<lparr>sessions := ss, sessionMeta := m\<rparr>)"
  shows "gpInv st'"
proof -
  let ?f = "\<lambda>p. if name p = name existing then p\<lparr>sessions := ss, sessionMeta := m\<rparr> else p"
  let ?new = "existing\<lparr>sessions := ss, sessionMeta := m\<rparr>"
  from inv have a: "distinct (map fullPath (gp_projects st))"
    and b: "distinct (map name (gp_projects st))"
    and c: "\<And>x q. duplicateDetection st x = Some q \<Longrightarrow> q \<in> set (gp_projects st) \<and> fullPath q = x"
    and d: "\<And>p. p \<in> set (gp_projects st) \<Longrightarrow> duplicateDetection st (fullPath p) = Some p"
    by (auto simp: gpInv_def)
  from c [OF some] have es: "existing \<in> set (gp_projects st)" "fullPath existing = fullPath proj"
    by auto
  have uniq: "p = existing" if "p \<in> set (gp_projects st)" "name p = name existing" for p
    using that b es(1) by (auto simp: distinct_map inj_on_def)
  have fp: "map fullPath (map ?f (gp_projects st)) = map fullPath (gp_projects st)"
    by (rule map_update_keeps(2))
  have nm: "map name (map ?f (gp_projects st)) = map name (gp_projects st)"
    by (rule map_update_keeps(1))
  show ?thesis
    unfolding gpInv_def ps dd
  proof (intro conjI allI impI ballI)
    show "distinct (map fullPath (map ?f (gp_projects st)))"
      unfolding fp by (rule a)
    show "distinct (map name (map ?f (gp_projects st)))"
      unfolding nm by (rule b)
  next
    fix x q
    assume h: "((duplicateDetection st)(fullPath proj \<mapsto> ?new)) x = Some q"
    show "fullPath q = x"
      using h c [of x q] es(2) by (auto split: if_splits)
    show "q \<in> set (map ?f (gp_projects st))"
    proof (cases "x = fullPath proj")
      case True
      with h have "q = ?f existing" by simp
      with es(1) show ?thesis by (simp only: set_map image_eqI)
    next
      case False
      with h have q: "duplicateDetection st x = Some q" by simp
      from c [OF q] have qs: "q \<in> set (gp_projects st)" "fullPath q = x" by auto
      have "name q \<noteq> name existing"
        using uniq [OF qs(1)] qs(2) es(2) False by auto
      then have "q = ?f q" by simp
      with qs(1) show ?thesis by (simp only: set_map image_eqI)
    qed
  next
    fix p'
    assume "p' \<in> set (map ?f (gp_projects st))"
    then obtain p where p: "p \<in> set (gp_projects st)" "p' = ?f p" by auto
    show "((duplicateDetection st)(fullPath proj \<mapsto> ?new)) (fullPath p') = Some p'"
    proof (cases "name p = name existing")
      case True
      with uniq [OF p(1)] p(2) es(2) show ?thesis by simp
    next
      case False
      have "fullPath p \<noteq> fullPath proj"
      proof
        assume "fullPath p = fullPath proj"
        with d [OF p(1)] some have "p = existing" by simp
        with False show False by simp
      qed
      with False p(2) d [OF p(1)] show ?thesis by simp
    qed
  qed
qed

lemma addProject_gpInv:
  assumes "gpInv st" "name proj \<notin> name ` set (gp_projects st)"
  shows "gpInv (addProject getS proj st)"
proof (cases "duplicateDetection st (fullPath proj)")
  case None
  show ?thesis
    by (rule gpInv_new [OF assms None addProject_new [OF None]])
next
  case (Some existing)
  consider "isManuallyAdded proj \<and> \<not> isManuallyAdded existing"
    | "\<not> isManuallyAdded proj \<and> isManuallyAdded existing"
    | "isManuallyAdded proj = isManuallyAdded existing" by blast
  then show ?thesis
  proof cases
    case 1
    then have m: "isManuallyAdded proj" "\<not> isManuallyAdded existing" by auto
    show ?thesis
      by (rule gpInv_replace [OF assms Some addProject_replace [OF Some m]])
  next
    case 2
    then show ?thesis
      using assms(1) by (simp add: addProject_skip [OF Some])
  next
    case 3
    show ?thesis
      by (rule gpInv_merge [OF assms(1) Some addProject_merge [OF Some 3]])
  qed
qed

lemma addProject_names:
  "name ` set (gp_projects (addProject getS proj st)) \<subseteq> insert (name proj) (name ` set (gp_projects st))"
proof (cases "duplicateDetection st (fullPath proj)")
  case None
  show ?thesis
    unfolding addProject_new(1) [OF None] by auto
next
  case (Some existing)
  consider "isManuallyAdded proj \<and> \<not> isManuallyAdded existing"
    | "\<not> isManuallyAdded proj \<and> isManuallyAdded existing"
    | "isManuallyAdded proj = isManuallyAdded existing" by blast
  then show ?thesis
  proof cases
    case 1
    then have m: "isManuallyAdded proj" "\<not> isManuallyAdded existing" by auto
    show ?thesis
      unfolding addProject_replace(1) [OF Some m]
      using removeFirstNamed_subset [of "name existing" "gp_projects st"] by auto
  next
    case 2
    then show ?thesis
      by (auto simp add: addProject_skip [OF Some])
  next
    case 3
    have "name ` set (gp_projects (addProject getS proj st)) = name ` set (gp_projects st)"
      unfolding addProject_merge(1) [OF Some 3]
      using map_update_keeps(1) [THEN arg_cong, of set] by (simp only: set_map)
    then show ?thesis by auto
  qed
qed

lemma addProject_dd_other:
  "y \<noteq> fullPath proj \<Longrightarrow> duplicateDetection (addProject getS proj st) y = duplicateDetection st y"
  by (simp add: addProject_def Let_def split: option.splits)

lemma addProject_winnerInv:
  assumes "winnerInv cs st"
  shows "winnerInv (cs @ [proj]) (addProject getS proj st)"
  unfolding winnerInv_def
proof
  fix y
  from assms have w: "case winner cs y of
             None \<Rightarrow> duplicateDetection st y = None
           | Some w \<Rightarrow> (\<exists>ss m. duplicateDetection st y = Some (w\<lparr>sessions := ss, sessionMeta := m\<rparr>))"
    by (simp add: winnerInv_def)
  show "case winner (cs @ [proj]) y of
             None \<Rightarrow> duplicateDetection (addProject getS proj st) y = None
           | Some w \<Rightarrow> (\<exists>ss m. duplicateDetection (addProject getS proj st) y
                                 = Some (w\<lparr>sessions := ss, sessionMeta := m\<rparr>))"
  proof (cases "y = fullPath proj")
    case False
    then have "winner (cs @ [proj]) y = winner cs y" by (simp add: winner_snoc)
    with w False show ?thesis by (simp add: addProject_dd_other split: option.splits)
  next
    case True
    show ?thesis
    proof (cases "winner cs y")
      case None
      with w True have n: "duplicateDetection st (fullPath proj) = None" by simp
      have "winner (cs @ [proj]) y = Some proj"
        using None True by (simp add: winner_snoc)
      then show ?thesis
        using True addProject_new(2) [OF n, of getS] by auto
    next
      case (Some wn)
      with w True obtain ss m where
        e: "duplicateDetection st (fullPath proj) = Some (wn\<lparr>sessions := ss, sessionMeta := m\<rparr>)"
        by auto
      let ?ex = "wn\<lparr>sessions := ss, sessionMeta := m\<rparr>"
      have man: "isManuallyAdded ?ex = isManuallyAdded wn" by simp
      consider "isManuallyAdded proj \<and> \<not> isManuallyAdded wn"
        | "\<not> isManuallyAdded proj \<and> isManuallyAdded wn"
        | "isManuallyAdded proj = isManuallyAdded wn" by blast
      then show ?thesis
      proof cases
        case 1
        then have "winner (cs @ [proj]) y = Some proj"
          using Some True by (simp add: winner_snoc)
        moreover from 1 have "isManuallyAdded proj" "\<not> isManuallyAdded ?ex" by auto
        note addProject_replace(2) [OF e this, of getS]
        ultimately show ?thesis using True by auto
      next
        case 2
        then have "winner (cs @ [proj]) y = Some wn"
          using Some True by (simp add: winner_snoc)
        moreover from 2 have "\<not> isManuallyAdded proj" "isManuallyAdded ?ex" by auto
        note addProject_skip [OF e this, of getS]
        ultimately show ?thesis using True e by auto
      next
        case 3
        then have "winner (cs @ [proj]) y = Some wn"
          using Some True by (auto simp add: winner_snoc)
        moreover from 3 have "isManuallyAdded proj = isManuallyAdded ?ex" by simp
        note addProject_merge(2) [OF e this, of getS]
        ultimately show ?thesis using True by auto
      qed
    qed
  qed
qed
lemma uniqueSessions_fold_distinct:
  "distinct (map sess_id acc) \<Longrightarrow>
   distinct (map sess_id
     (fold (\<lambda>s a. if sess_id s \<in> set (map sess_id a) then a else a @ [s]) xs acc))"
  by (induction xs arbitrary: acc) auto

lemma uniqueSessions_distinct: "distinct (map sess_id (uniqueSessions xs))"
  unfolding uniqueSessions_def by (rule uniqueSessions_fold_distinct) simp

lemma uniqueSessions_fold_ids:
  "sess_id ` set (fold (\<lambda>s a. if sess_id s \<in> set (map sess_id a) then a else a @ [s]) xs acc)
     = sess_id ` set acc \<union> sess_id ` set xs"
  by (induction xs arbitrary: acc) auto

lemma uniqueSessions_ids: "sess_id ` set (uniqueSessions xs) = sess_id ` set xs"
  unfolding uniqueSessions_def uniqueSessions_fold_ids by simp

lemma addProject_sessions:
  assumes "\<forall>p \<in> set (gp_projects st). distinct (map sess_id (sessions p))"
    and "\<And>n. distinct (map sess_id (res_sessions (getS n)))"
  shows "\<forall>p \<in> set (gp_projects (addProject getS proj st)). distinct (map sess_id (sessions p))"
proof (cases "duplicateDetection st (fullPath proj)")
  case None
  show ?thesis
    unfolding addProject_new(1) [OF None] using assms by auto
next
  case (Some existing)
  consider "isManuallyAdded proj \<and> \<not> isManuallyAdded existing"
    | "\<not> isManuallyAdded proj \<and> isManuallyAdded existing"
    | "isManuallyAdded proj = isManuallyAdded existing" by blast
  then show ?thesis
  proof cases
    case 1
    then have m: "isManuallyAdded proj" "\<not> isManuallyAdded existing" by auto
    show ?thesis
      unfolding addProject_replace(1) [OF Some m]
      using assms(1) removeFirstNamed_subset [of "name existing" "gp_projects st"]
      by (auto simp: uniqueSessions_distinct)
  next
    case 2
    then show ?thesis
      using assms(1) by (simp add: addProject_skip [OF Some])
  next
    case 3
    show ?thesis
      unfolding addProject_merge(1) [OF Some 3]
      using assms(1) by (auto simp: uniqueSessions_distinct)
  qed
qed

lemma addProject_phaseInv:
  assumes "phaseInv cs A st" "name proj \<notin> A"
    and "\<And>n. distinct (map sess_id (res_sessions (getS n)))"
  shows "phaseInv (cs @ [proj]) (insert (name proj) A) (addProject getS proj st)"
proof -
  from assms(1) have g: "gpInv st" and w: "winnerInv cs st"
    and s: "\<forall>p \<in> set (gp_projects st). distinct (map sess_id (sessions p))"
    and n: "name ` set (gp_projects st) \<subseteq> A"
    by (simp_all add: phaseInv_def)
  from n assms(2) have fresh: "name proj \<notin> name ` set (gp_projects st)" by auto
  have "name ` set (gp_projects (addProject getS proj st)) \<subseteq> insert (name proj) A"
    using addProject_names [of getS proj st] n by auto
  then show ?thesis
    unfolding phaseInv_def
    using addProject_gpInv [OF g fresh] addProject_winnerInv [OF w]
      addProject_sessions [OF s assms(3)] by simp
qed

lemma phaseInv_fields:
  "phaseInv cs A (st\<lparr>existingProjects := E, gp_cache := C\<rparr>) = phaseInv cs A st"
  "phaseInv cs A (st\<lparr>gp_cache := C\<rparr>) = phaseInv cs A st"
  by (simp_all add: phaseInv_def gpInv_def winnerInv_def cong: option.case_cong)

lemma directoryProject_name [simp]: "name (directoryProject pkg cfg n d) = n"
  by (simp add: directoryProject_def Let_def)

lemma configuredProject_name [simp]: "name (configuredProject pkg n pc d) = n"
  by (simp add: configuredProject_def)

lemma phaseInv_existing:
  "phaseInv cs A (st\<lparr>existingProjects := E\<rparr>) = phaseInv cs A st"
  by (simp add: phaseInv_def gpInv_def winnerInv_def cong: option.case_cong)

lemma directory_phase:
  assumes "phaseInv cs A st"
    and "distinct (map entryName (filter isDirectory entries))"
    and "entryName ` set (filter isDirectory entries) \<inter> A = {}"
  shows "phaseInv (cs @ directoryCandidates pkg cfg fsys entries (gp_cache st))
           (A \<union> entryName ` set (filter isDirectory entries))
           (fold (directoryStep now pkg cfg fsys) entries st)
       \<and> existingProjects (fold (directoryStep now pkg cfg fsys) entries st)
           = existingProjects st \<union> entryName ` set (filter isDirectory entries)"
  using assms
proof (induction entries arbitrary: st cs A)
  case Nil
  then show ?case by simp
next
  case (Cons ent ents)
  show ?case
  proof (cases "isDirectory ent")
    case False
    then have "directoryStep now pkg cfg fsys ent st = st"
      by (simp add: directoryStep_def)
    with False Cons.IH [of cs A st] Cons.prems show ?thesis by simp
  next
    case True
    let ?r = "extractProjectDirectory cfg fsys (gp_cache st) (entryName ent)"
    let ?c = "directoryProject pkg cfg (entryName ent) (fst ?r)"
    let ?st1 = "st\<lparr>existingProjects := insert (entryName ent) (existingProjects st), gp_cache := snd ?r\<rparr>"
    let ?st' = "addProject (\<lambda>n. getSessions now fsys n 5 0) ?c ?st1"
    have step: "directoryStep now pkg cfg fsys ent st = ?st'"
      using True by (simp add: directoryStep_def Let_def)
    have fresh: "name ?c \<notin> A"
      using Cons.prems(3) True by auto
    have "phaseInv cs A ?st1"
      using Cons.prems(1) by (simp add: phaseInv_fields phaseInv_existing)
    then have inv': "phaseInv (cs @ [?c]) (insert (name ?c) A) ?st'"
      using fresh by (rule addProject_phaseInv) (rule getSessions_distinct)
    have d': "distinct (map entryName (filter isDirectory ents))"
      using Cons.prems(2) True by simp
    have disj': "entryName ` set (filter isDirectory ents) \<inter> insert (name ?c) A = {}"
      using Cons.prems(2,3) True by auto
    have cache': "gp_cache ?st' = snd ?r"
      by (simp add: addProject_other_fields)
    have ex': "existingProjects ?st' = insert (entryName ent) (existingProjects st)"
      by (simp add: addProject_other_fields)
    have names: "insert (name ?c) A \<union> entryName ` set (filter isDirectory ents)
                   = A \<union> entryName ` set (filter isDirectory (ent # ents))"
      using True by auto
    have exs: "insert (entryName ent) (existingProjects st) \<union> entryName ` set (filter isDirectory ents)
                 = existingProjects st \<union> entryName ` set (filter isDirectory (ent # ents))"
      using True by auto
    have cands: "(cs @ [?c]) @ directoryCandidates pkg cfg fsys ents (snd ?r)
                   = cs @ directoryCandidates pkg cfg fsys (ent # ents) (gp_cache st)"
      using True by simp
    have fld: "fold (directoryStep now pkg cfg fsys) (ent # ents) st
                 = fold (directoryStep now pkg cfg fsys) ents ?st'"
      by (simp only: fold_simps step)
    from Cons.IH [OF inv' d' disj'] show ?thesis
      unfolding fld cache' ex' names exs cands .
  qed
qed

lemma config_phase:
  assumes "phaseInv cs A st"
    and "distinct (map fst kvs)"
    and "\<forall>kv \<in> set kvs. fst kv \<notin> existingProjects st \<longrightarrow> fst kv \<notin> A"
  shows "\<exists>A'. phaseInv (cs @ configCandidates pkg cfg fsys (existingProjects st) kvs (gp_cache st)) A'
           (fold (configStep now pkg cfg fsys) kvs st)"
  using assms
proof (induction kvs arbitrary: st cs A)
  case Nil
  then show ?case by auto
next
  case (Cons kv kvs)
  show ?case
  proof (cases "fst kv \<notin> existingProjects st \<and> manuallyAdded (snd kv)")
    case False
    then have step: "configStep now pkg cfg fsys kv st = st"
      by (auto simp add: configStep_def)
    have c0: "configCandidates pkg cfg fsys (existingProjects st) (kv # kvs) (gp_cache st)
                = configCandidates pkg cfg fsys (existingProjects st) kvs (gp_cache st)"
      using False by auto
    have f0: "fold (configStep now pkg cfg fsys) (kv # kvs) st
                = fold (configStep now pkg cfg fsys) kvs st"
      by (simp add: step)
    have "\<exists>A'. phaseInv (cs @ configCandidates pkg cfg fsys (existingProjects st) kvs (gp_cache st)) A'
           (fold (configStep now pkg cfg fsys) kvs st)"
      using Cons.prems by (intro Cons.IH [of cs A st]) auto
    then show ?thesis unfolding c0 f0 .
  next
    case True
    let ?r = "if truthy (originalPath (snd kv)) then (the (originalPath (snd kv)), gp_cache st)
              else extractProjectDirectory cfg fsys (gp_cache st) (fst kv)"
    let ?c = "configuredProject pkg (fst kv) (snd kv) (fst ?r)"
    let ?st1 = "st\<lparr>gp_cache := snd ?r\<rparr>"
    let ?st' = "addProject (\<lambda>n. getSessions now fsys n 5 0) ?c ?st1"
    have step: "configStep now pkg cfg fsys kv st = ?st'"
      using True by (simp add: configStep_def Let_def)
    have fresh: "name ?c \<notin> A"
      using Cons.prems(3) True by simp
    have "phaseInv cs A ?st1"
      using Cons.prems(1) by (simp add: phaseInv_fields)
    then have inv': "phaseInv (cs @ [?c]) (insert (name ?c) A) ?st'"
      using fresh by (rule addProject_phaseInv) (rule getSessions_distinct)
    have d': "distinct (map fst kvs)"
      using Cons.prems(2) by simp
    have cache': "gp_cache ?st' = snd ?r"
      by (simp add: addProject_other_fields)
    have ex': "existingProjects ?st' = existingProjects st"
      by (simp add: addProject_other_fields)
    have disj': "\<forall>kv' \<in> set kvs. fst kv' \<notin> existingProjects ?st' \<longrightarrow> fst kv' \<notin> insert (name ?c) A"
      unfolding ex' using Cons.prems(2,3) by (auto simp: image_iff)
    have cands: "(cs @ [?c]) @ configCandidates pkg cfg fsys (existingProjects st) kvs (snd ?r)
                   = cs @ configCandidates pkg cfg fsys (existingProjects st) (kv # kvs) (gp_cache st)"
      using True by (simp add: Let_def)
    have fld: "fold (configStep now pkg cfg fsys) (kv # kvs) st
                 = fold (configStep now pkg cfg fsys) kvs ?st'"
      by (simp only: fold_simps step)
    from Cons.IH [OF inv' d' disj'] show ?thesis
      unfolding fld cache' ex' cands .
  qed
qed

lemma safeguardStep_eq:
  "safeguardStep pkg kv st =
     (if manuallyAdded (snd kv) \<and> fst kv \<notin> name ` set (gp_projects st)
      then st\<lparr>gp_projects := gp_projects st @ [safeguardProject pkg kv]\<rparr> else st)"
proof -
  have "list_ex (\<lambda>p. name p = fst kv) (gp_projects st) \<longleftrightarrow> fst kv \<in> name ` set (gp_projects st)"
    by (force simp: list_ex_iff image_iff)
  then show ?thesis
    by (simp add: safeguardStep_def safeguardProject_def Let_def)
qed

lemma safeguardProject_name [simp]: "name (safeguardProject pkg kv) = fst kv"
  by (simp add: safeguardProject_def)

lemma safeguard_fold:
  "distinct (map fst kvs) \<Longrightarrow>
   gp_projects (fold (safeguardStep pkg) kvs st)
     = gp_projects st @
         map (safeguardProject pkg)
           (filter (\<lambda>kv. manuallyAdded (snd kv) \<and> fst kv \<notin> name ` set (gp_projects st)) kvs)"
proof (induction kvs arbitrary: st)
  case Nil
  show ?case by simp
next
  case (Cons kv kvs)
  have d: "distinct (map fst kvs)" and nk: "fst kv \<notin> fst ` set kvs"
    using Cons.prems by auto
  show ?case
  proof (cases "manuallyAdded (snd kv) \<and> fst kv \<notin> name ` set (gp_projects st)")
    case False
    then have "safeguardStep pkg kv st = st" by (simp add: safeguardStep_eq)
    with False Cons.IH [OF d, of st] show ?thesis by auto
  next
    case True
    let ?st' = "st\<lparr>gp_projects := gp_projects st @ [safeguardProject pkg kv]\<rparr>"
    have step: "safeguardStep pkg kv st = ?st'"
      using True by (simp add: safeguardStep_eq)
    have same: "filter (\<lambda>kv'. manuallyAdded (snd kv') \<and> fst kv' \<notin> name ` set (gp_projects ?st')) kvs
              = filter (\<lambda>kv'. manuallyAdded (snd kv') \<and> fst kv' \<notin> name ` set (gp_projects st)) kvs"
      using nk by (intro filter_cong) (auto simp: image_iff)
    have "gp_projects (fold (safeguardStep pkg) (kv # kvs) st)
            = gp_projects (fold (safeguardStep pkg) kvs ?st')"
      by (simp add: step)
    also have "\<dots> = gp_projects ?st' @ map (safeguardProject pkg)
           (filter (\<lambda>kv'. manuallyAdded (snd kv') \<and> fst kv' \<notin> name ` set (gp_projects ?st')) kvs)"
      by (rule Cons.IH [OF d])
    also have "\<dots> = gp_projects ?st' @ map (safeguardProject pkg)
           (filter (\<lambda>kv'. manuallyAdded (snd kv') \<and> fst kv' \<notin> name ` set (gp_projects st)) kvs)"
      by (simp only: same)
    also have "\<dots> = gp_projects st @ map (safeguardProject pkg)
           (filter (\<lambda>kv'. manuallyAdded (snd kv') \<and> fst kv' \<notin> name ` set (gp_projects st)) (kv # kvs))"
      using True by simp
    finally show ?thesis .
  qed
qed

lemma init_phaseInv:
  "phaseInv [] {} \<lparr>gp_projects = [], duplicateDetection = Map.empty, existingProjects = {},
                      gp_cache = cache\<rparr>"
  by (simp add: phaseInv_def gpInv_def winnerInv_def winner_def)

lemma after_duplicate_detection:
  assumes "distinct (map entryName (filter isDirectory entries))" and "distinct (map fst cfg)"
  shows "\<exists>A. phaseInv (candidates now pkg cfg entries fsys cache) A
           (afterDuplicateDetection now pkg cfg entries fsys cache)"
proof -
  let ?init = "\<lparr>gp_projects = [], duplicateDetection = Map.empty, existingProjects = {},
                gp_cache = cache\<rparr>"
  let ?D = "entryName ` set (filter isDirectory entries)"
  let ?st1 = "afterDirectories now pkg cfg entries fsys cache"
  have "phaseInv ([] @ directoryCandidates pkg cfg fsys entries (gp_cache ?init)) ({} \<union> ?D)
           (fold (directoryStep now pkg cfg fsys) entries ?init)
       \<and> existingProjects (fold (directoryStep now pkg cfg fsys) entries ?init)
           = existingProjects ?init \<union> ?D"
    by (rule directory_phase [OF init_phaseInv assms(1)]) simp
  then have p1: "phaseInv (directoryCandidates pkg cfg fsys entries cache) ?D ?st1"
    and e1: "existingProjects ?st1 = ?D"
    by (simp_all add: afterDirectories_def)
  have "\<forall>kv \<in> set cfg. fst kv \<notin> existingProjects ?st1 \<longrightarrow> fst kv \<notin> ?D"
    by (simp add: e1)
  from config_phase [OF p1 assms(2) this, of pkg cfg "cleanupEmptyProjectDirectories cfg entries fsys" now]
  show ?thesis
    by (simp add: candidates_def afterDuplicateDetection_def)
qed

text \<open>
  The duplicate detection itself keeps one project per full path. With distinct directory
  names and distinct configuration keys: after the two passes the full paths of the list
  are distinct; each project of the list is the winner of its path among the candidates
  (the first manually added candidate, else the first candidate), with its sessions
  filled in; every candidate's path is in the list; every project has at most one session
  per identity; and the returned list is that list followed by the manually added
  entries of the configuration whose names the list lacks, which the safeguard pushes
  without a look at the paths.
\<close>

lemma duplicate_detection_one_per_path:
  assumes "distinct (map entryName (filter isDirectory entries))" and "distinct (map fst cfg)"
  shows "distinct (map fullPath (gp_projects (afterDuplicateDetection now pkg cfg entries fsys cache)))
    \<and> (\<forall>p \<in> set (gp_projects (afterDuplicateDetection now pkg cfg entries fsys cache)).
          \<exists>w ss m. winner (candidates now pkg cfg entries fsys cache) (fullPath p) = Some w
                    \<and> p = w\<lparr>sessions := ss, sessionMeta := m\<rparr>)
    \<and> (\<forall>c \<in> set (candidates now pkg cfg entries fsys cache).
          \<exists>p \<in> set (gp_projects (afterDuplicateDetection now pkg cfg entries fsys cache)).
             fullPath p = fullPath c)
    \<and> getProjects now pkg cfg entries fsys cache
          = gp_projects (afterDuplicateDetection now pkg cfg entries fsys cache)
            @ map (safeguardProject pkg)
                (filter (\<lambda>kv. manuallyAdded (snd kv) \<and> fst kv \<notin> name `
                    set (gp_projects (afterDuplicateDetection now pkg cfg entries fsys cache))) cfg)
    \<and> (\<forall>p \<in> set (getProjects now pkg cfg entries fsys cache). distinct (map sess_id (sessions p)))"
proof -
  let ?st = "afterDuplicateDetection now pkg cfg entries fsys cache"
  let ?cs = "candidates now pkg cfg entries fsys cache"
  from after_duplicate_detection [OF assms, of now pkg fsys cache]
  obtain A where inv: "phaseInv ?cs A ?st" by blast
  then have g: "gpInv ?st" and w: "winnerInv ?cs ?st"
    and s: "\<forall>p \<in> set (gp_projects ?st). distinct (map sess_id (sessions p))"
    by (simp_all add: phaseInv_def)
  from g have a: "distinct (map fullPath (gp_projects ?st))"
    and c: "\<And>x q. duplicateDetection ?st x = Some q \<Longrightarrow> q \<in> set (gp_projects ?st) \<and> fullPath q = x"
    and d: "\<And>p. p \<in> set (gp_projects ?st) \<Longrightarrow> duplicateDetection ?st (fullPath p) = Some p"
    by (auto simp: gpInv_def)
  have wi: "case winner ?cs x of
              None \<Rightarrow> duplicateDetection ?st x = None
            | Some w \<Rightarrow> (\<exists>ss m. duplicateDetection ?st x = Some (w\<lparr>sessions := ss, sessionMeta := m\<rparr>))"
    for x using w by (simp add: winnerInv_def)
  have 2: "\<exists>w ss m. winner ?cs (fullPath p) = Some w \<and> p = w\<lparr>sessions := ss, sessionMeta := m\<rparr>"
    if "p \<in> set (gp_projects ?st)" for p
    using d [OF that] wi [of "fullPath p"] by (auto split: option.splits)
  have 3: "\<exists>p \<in> set (gp_projects ?st). fullPath p = fullPath c" if "c \<in> set ?cs" for c
  proof -
    have "find (\<lambda>c'. fullPath c' = fullPath c) ?cs \<noteq> None"
      using that by (auto simp: find_None_iff)
    then have "winner ?cs (fullPath c) \<noteq> None"
      by (auto simp: winner_def split: option.splits)
    then obtain q where "duplicateDetection ?st (fullPath c) = Some q"
      using wi [of "fullPath c"] by (auto split: option.splits)
    from c [OF this] show ?thesis by auto
  qed
  have 4: "getProjects now pkg cfg entries fsys cache
          = gp_projects ?st
            @ map (safeguardProject pkg)
                (filter (\<lambda>kv. manuallyAdded (snd kv) \<and> fst kv \<notin> name ` set (gp_projects ?st)) cfg)"
    unfolding getProjects_def by (rule safeguard_fold [OF assms(2)])
  have 5: "\<forall>p \<in> set (getProjects now pkg cfg entries fsys cache). distinct (map sess_id (sessions p))"
    unfolding 4 using s by (auto simp: safeguardProject_def configuredProject_def)
  show ?thesis
    using a 2 3 4 5 by blast
qed

lemma ex_sessions: "getSessions 0 fs n 5 0 = noSessions" if "fs n = None \<or> fs n = Some []" for fs
  using that by (auto simp: getSessions_def jsonlFilesOf_def)

lemma ex_cleanup: "cleanupEmptyProjectDirectories twoManual oneDirectory emptyDirectory = emptyDirectory"
  by (simp add: cleanupEmptyProjectDirectories_def cleanupStep_def oneDirectory_def emptyDirectory_def
      twoManual_def manualAt_def jsonlFilesOf_def startsWith_def Let_def)

lemma ex_display: "generateDisplayName (\<lambda>_. None) n ''/home/demo'' = ''/home/demo''"
  by (simp add: generateDisplayName_def truthy_def startsWith_def Let_def)
lemma ex_after_dirs:
  "afterDirectories 0 (\<lambda>_. None) twoManual oneDirectory emptyDirectory Map.empty
     = \<lparr>gp_projects =
          [\<lparr>name = ''-home-demo'', path = ''/home/demo'', displayName = ''/home/demo'', fullPath = ''/home/demo'',
            isCustomName = False, isManuallyAdded = True, sessions = [],
            sessionMeta = Some \<lparr>hasMore = Some False, total = 0\<rparr>\<rparr>],
        duplicateDetection =
          [''/home/demo'' \<mapsto> \<lparr>name = ''-home-demo'', path = ''/home/demo'', displayName = ''/home/demo'', fullPath = ''/home/demo'',
            isCustomName = False, isManuallyAdded = True, sessions = [],
            sessionMeta = Some \<lparr>hasMore = Some False, total = 0\<rparr>\<rparr>],
        existingProjects = {''-home-demo''},
        gp_cache = [''-home-demo'' \<mapsto> ''/home/demo'']\<rparr>"
  by (simp add: afterDirectories_def directoryStep_def oneDirectory_def extractProjectDirectory_def
      twoManual_def manualAt_def truthy_def directoryProject_def ex_display addProject_def
      ex_sessions emptyDirectory_def noSessions_def Let_def)

lemma ex_after_dd:
  "gp_projects (afterDuplicateDetection 0 (\<lambda>_. None) twoManual oneDirectory emptyDirectory Map.empty)
     = [\<lparr>name = ''-home-demo'', path = ''/home/demo'', displayName = ''/home/demo'', fullPath = ''/home/demo'',
            isCustomName = False, isManuallyAdded = True, sessions = [],
            sessionMeta = Some \<lparr>hasMore = Some False, total = 0\<rparr>\<rparr>]"
  unfolding afterDuplicateDetection_def ex_after_dirs ex_cleanup
  by (simp add: twoManual_def configStep_def manualAt_def truthy_def configuredProject_def ex_display
      addProject_def ex_sessions emptyDirectory_def noSessions_def uniqueSessions_def mergedMeta_def
      Let_def)

text \<open>
  C5 on a configuration with two manually added projects for one path: the second is
  merged into the first by the duplicate detection and skipped, and the final safeguard
  pushes it again, so the returned list has two projects with the full path
  \<^verbatim>\<open>/home/demo\<close>.
\<close>

theorem getProjects_two_manual_same_path:
  "map (\<lambda>p. (name p, fullPath p, isManuallyAdded p))
     (getProjects 0 (\<lambda>_. None) twoManual oneDirectory emptyDirectory Map.empty)
     = [(''-home-demo'', ''/home/demo'', True), (''home-demo'', ''/home/demo'', True)]"
proof -
  have d: "distinct (map fst twoManual)"
    by (simp add: twoManual_def)
  have "getProjects 0 (\<lambda>_. None) twoManual oneDirectory emptyDirectory Map.empty
     = gp_projects (afterDuplicateDetection 0 (\<lambda>_. None) twoManual oneDirectory emptyDirectory Map.empty)
       @ map (safeguardProject (\<lambda>_. None))
           (filter (\<lambda>kv. manuallyAdded (snd kv) \<and> fst kv \<notin> name `
               set (gp_projects (afterDuplicateDetection 0 (\<lambda>_. None) twoManual oneDirectory
                  emptyDirectory Map.empty))) twoManual)"
    unfolding getProjects_def by (rule safeguard_fold [OF d])
  then show ?thesis
    unfolding ex_after_dd
    by (simp add: twoManual_def manualAt_def safeguardProject_def configuredProject_def truthy_def)
qed

end
